theory Spec2Isabelle
  imports Main
begin

section \<open>Updates, outcomes and the poller's effects\<close>

text \<open>
  An Update of the Bot API, as far as the poller and the master read it: its
  \<^verbatim>\<open>update_id\<close> and an opaque body.
\<close>

record update =
  update_id :: int
  body :: string

text \<open>
  A rejected promise or a thrown exception carries an error value. An awaited call
  either completes or throws; \<^verbatim>\<open>botAPI.getUpdates\<close> either rejects or resolves to an
  array of Updates.
\<close>

datatype js_error = JsError string

datatype outcome = Completes | Throws js_error

type_synonym fetch_result = "js_error + update list"

text \<open>
  What the poller does to its collaborators, in program order: logger calls, the
  \<^verbatim>\<open>getUpdates\<close> request with the offset it sends, the awaited \<^verbatim>\<open>onUpdates\<close> call with
  the way it settled, writes to \<^verbatim>\<open>pollingParam["offset"]\<close>, and the timer calls.
\<close>

datatype effect =
    LogDebug
  | LogWarn string
  | LogError js_error
  | GetUpdates int
  | OnUpdates "update list" outcome
  | SetOffset int
  | SetTimeout nat nat
  | ClearTimeout "nat option"

section \<open>BotPoller (src/azbot-telegram/bot-poller.js)\<close>

text \<open>
  The fields of the class that hold state (\<^verbatim>\<open>botAPI\<close>, \<^verbatim>\<open>onUpdates\<close> and \<^verbatim>\<open>botLogger\<close>
  are collaborators: calls to them are effects), with \<^verbatim>\<open>pollingParam\<close> as its two
  entries \<open>offset\<close> and \<open>timeout\<close>; then the part of the JavaScript runtime the class
  talks to: the pending timeouts (handle and delay; the callback is always
  \<^verbatim>\<open>pollUpdates\<close>), the next fresh timer handle, and the effects so far.
\<close>

record poller =
  pollingInterval :: nat
  coolDownInterval :: nat
  skippingUpdates :: "bool option"
  isPolling :: bool
  pollingID :: "nat option"
  offset :: int
  timeout :: int
  timers :: "(nat \<times> nat) list"
  next_timer :: nat
  effects :: "effect list"

record poller_opts =
  opt_pollingInterval :: "nat option"
  opt_skippingUpdates :: "bool option"

text \<open>
  The constructor. \<^verbatim>\<open>opts["pollingInterval"] || 1500\<close> takes the default for a missing
  option and for \<^verbatim>\<open>0\<close>; \<^verbatim>\<open>skippingUpdates\<close> is stored as given (\<open>None\<close> is a missing
  or null option).
\<close>

definition BotPoller :: "poller_opts \<Rightarrow> poller" where
  "BotPoller opts =
     \<lparr> pollingInterval =
         (case opt_pollingInterval opts of
            None \<Rightarrow> 1500
          | Some n \<Rightarrow> if n = 0 then 1500 else n),
       coolDownInterval = 6000,
       skippingUpdates = opt_skippingUpdates opts,
       isPolling = False,
       pollingID = None,
       offset = 0,
       timeout = 1,
       timers = [],
       next_timer = 0,
       effects = [] \<rparr>"

definition emit :: "effect list \<Rightarrow> poller \<Rightarrow> poller" where
  "emit es p = p\<lparr>effects := effects p @ es\<rparr>"

definition set_offset :: "int \<Rightarrow> poller \<Rightarrow> poller" where
  "set_offset n p = emit [SetOffset n] (p\<lparr>offset := n\<rparr>)"

text \<open>
  \<^verbatim>\<open>setTimeout\<close> registers a pending timeout under a fresh handle and returns the
  handle; \<^verbatim>\<open>clearTimeout\<close> cancels the timeout with that handle if it is pending, and
  does nothing for \<^verbatim>\<open>null\<close> or a handle that already fired.
\<close>

definition setTimeout :: "nat \<Rightarrow> poller \<Rightarrow> nat \<times> poller" where
  "setTimeout delay p =
     (let i = next_timer p
      in (i, emit [SetTimeout i delay]
               (p\<lparr>timers := timers p @ [(i, delay)], next_timer := Suc i\<rparr>)))"

definition clearTimeout :: "nat option \<Rightarrow> poller \<Rightarrow> poller" where
  "clearTimeout h p =
     emit [ClearTimeout h]
       (case h of
          None \<Rightarrow> p
        | Some i \<Rightarrow> p\<lparr>timers := filter (\<lambda>t. fst t \<noteq> i) (timers p)\<rparr>)"

text \<open>
  \<^verbatim>\<open>skipUpdates\<close>: the offset is set to \<open>-1\<close>, one request is sent, and the offset
  moves behind the first Update of the answer, if there is one. A rejected request is
  logged and swallowed. The argument is the way the request settles.
\<close>

definition skipUpdates :: "fetch_result \<Rightarrow> poller \<Rightarrow> poller" where
  "skipUpdates r p =
     (let p1 = emit [GetUpdates (- 1)] (set_offset (- 1) p)
      in case r of
           Inr updates \<Rightarrow>
             (case updates of
                [] \<Rightarrow> p1
              | u # _ \<Rightarrow> set_offset (update_id u + 1) p1)
         | Inl error \<Rightarrow>
             emit [LogWarn ''Poller: Failed to skip updates before polling.'',
                   LogError error] p1)"

text \<open>
  \<^verbatim>\<open>pollUpdates\<close> is an async function: it runs up to the request and is suspended
  until the request settles. \<open>pollUpdates_issue\<close> is the part before the first
  \<^verbatim>\<open>await\<close>, \<open>pollUpdates_resume\<close> the rest, given the way the request settles and the
  way the awaited \<^verbatim>\<open>onUpdates\<close> call settles when it is made. A call of
  \<^verbatim>\<open>stopPollUpdates\<close> while the request is in flight is a step between the two parts.
\<close>

definition pollUpdates_issue :: "poller \<Rightarrow> poller" where
  "pollUpdates_issue p = emit [LogDebug, GetUpdates (offset p)] p"

definition reschedule :: "bool \<Rightarrow> poller \<Rightarrow> poller" where
  "reschedule coolDown p =
     (if isPolling p
      then (let (i, p') =
                  setTimeout (if coolDown then coolDownInterval p else pollingInterval p) p
            in p'\<lparr>pollingID := Some i\<rparr>)
      else p)"

definition cool_down :: "js_error \<Rightarrow> poller \<Rightarrow> poller" where
  "cool_down error p =
     emit [LogWarn ''Poller: Failed to poll updates, cool down.'', LogError error] p"

definition pollUpdates_resume :: "fetch_result \<Rightarrow> outcome \<Rightarrow> poller \<Rightarrow> poller" where
  "pollUpdates_resume r d p =
     (case r of
        Inr updates \<Rightarrow>
          (if length updates > 0
           then (let p1 = emit [LogDebug, OnUpdates updates d] p
                 in case d of
                      Completes \<Rightarrow>
                        reschedule False (set_offset (update_id (last updates) + 1) p1)
                    | Throws error \<Rightarrow> reschedule True (cool_down error p1))
           else reschedule False p)
      | Inl error \<Rightarrow> reschedule True (cool_down error p))"

definition pollUpdates :: "fetch_result \<Rightarrow> outcome \<Rightarrow> poller \<Rightarrow> poller" where
  "pollUpdates r d p = pollUpdates_resume r d (pollUpdates_issue p)"

text \<open>
  \<^verbatim>\<open>startPollUpdates\<close>, as one call that runs to its end with nothing else in between:
  when not polling, skip (by default), set the flag and call \<^verbatim>\<open>pollUpdates\<close> without
  awaiting it, which sends the first request. The argument is the way the skipping
  request settles. The value returned to the caller is the \<^verbatim>\<open>isPolling\<close> flag of the
  resulting state.
\<close>

definition startPollUpdates :: "fetch_result \<Rightarrow> poller \<Rightarrow> poller" where
  "startPollUpdates r p =
     (if \<not> isPolling p
      then (let p1 = (if skippingUpdates p = None \<or> skippingUpdates p = Some True
                      then skipUpdates r p else p)
            in pollUpdates_issue (p1\<lparr>isPolling := True\<rparr>))
      else p)"

text \<open>
  \<^verbatim>\<open>startPollUpdates\<close> is an async function as well: with skipping enabled it is
  suspended at \<^verbatim>\<open>await this.skipUpdates()\<close>, with the skipping request in flight and
  the flag not yet set. \<open>startPollUpdates_call\<close> is the part up to there (the whole
  call when the poller is polling or skipping is off); its second result says whether
  the call is suspended. \<open>startPollUpdates_resume\<close> is the rest, given the way the
  skipping request settles. Other calls can run between the two parts.
\<close>

definition skipUpdates_call :: "poller \<Rightarrow> poller" where
  "skipUpdates_call p = emit [GetUpdates (- 1)] (set_offset (- 1) p)"

definition skipUpdates_resume :: "fetch_result \<Rightarrow> poller \<Rightarrow> poller" where
  "skipUpdates_resume r p =
     (case r of
        Inr updates \<Rightarrow>
          (case updates of
             [] \<Rightarrow> p
           | u # _ \<Rightarrow> set_offset (update_id u + 1) p)
      | Inl error \<Rightarrow>
          emit [LogWarn ''Poller: Failed to skip updates before polling.'',
                LogError error] p)"

definition startPollUpdates_call :: "poller \<Rightarrow> poller \<times> bool" where
  "startPollUpdates_call p =
     (if \<not> isPolling p
      then (if skippingUpdates p = None \<or> skippingUpdates p = Some True
            then (skipUpdates_call p, True)
            else (pollUpdates_issue (p\<lparr>isPolling := True\<rparr>), False))
      else (p, False))"

definition startPollUpdates_resume :: "fetch_result \<Rightarrow> poller \<Rightarrow> poller" where
  "startPollUpdates_resume r p = pollUpdates_issue ((skipUpdates_resume r p)\<lparr>isPolling := True\<rparr>)"

definition stopPollUpdates :: "poller \<Rightarrow> poller" where
  "stopPollUpdates p =
     (if isPolling p
      then clearTimeout (pollingID p) (p\<lparr>isPolling := False\<rparr>)
      else p)"

text \<open>
  A pending timeout fires: it leaves the pending set and \<^verbatim>\<open>pollUpdates\<close> is called.
\<close>

definition timer_fires :: "nat \<Rightarrow> poller \<Rightarrow> poller" where
  "timer_fires i p =
     (if i \<in> fst ` set (timers p)
      then pollUpdates_issue (p\<lparr>timers := filter (\<lambda>t. fst t \<noteq> i) (timers p)\<rparr>)
      else p)"

section \<open>Earlier copies of the poller (src/aztgbot/bot-poller.js)\<close>

text \<open>
  The file holds two earlier copies of the class. Both call \<^verbatim>\<open>onUpdates\<close> without
  \<^verbatim>\<open>await\<close>, for every answer: the outcome below is what the call does before it
  returns, and an \<open>OnUpdates\<close> effect of these copies records the call, not its
  completion. What the returned promise does later is no input of these functions,
  since nothing in them waits for it.

  The first copy, the \<^verbatim>\<open>try\<close> block of \<^verbatim>\<open>pollUpdates\<close>: the result is the state and the
  \<^verbatim>\<open>coolDown\<close> flag.
\<close>

definition legacy_try_block :: "fetch_result \<Rightarrow> outcome \<Rightarrow> poller \<Rightarrow> poller \<times> bool" where
  "legacy_try_block r d p =
     (case r of
        Inr updates \<Rightarrow>
          (let p1 = emit [OnUpdates updates d] p
           in case d of
                Completes \<Rightarrow>
                  (if length updates > 0
                   then (set_offset (update_id (last updates) + 1) p1, False)
                   else (p1, False))
              | Throws error \<Rightarrow> (emit [LogError error] p1, True))
      | Inl error \<Rightarrow> (emit [LogError error] p, True))"

text \<open>
  The second copy: its own \<^verbatim>\<open>getUpdates\<close> turns a rejected request into an empty
  answer, and \<^verbatim>\<open>pollUpdates\<close>, resumed when the request has settled, looks for the
  greatest \<^verbatim>\<open>update_id\<close>, starting from 0, and moves the cursor when the result is
  not 0. There is no cool-down.
\<close>

definition legacy_getUpdates :: "fetch_result \<Rightarrow> poller \<Rightarrow> update list \<times> poller" where
  "legacy_getUpdates r p =
     (case r of
        Inr updates \<Rightarrow> (updates, p)
      | Inl error \<Rightarrow> ([], emit [LogError error] p))"

fun greatest_update_id :: "int \<Rightarrow> update list \<Rightarrow> int" where
  "greatest_update_id updateID [] = updateID"
| "greatest_update_id updateID (u # us) =
     greatest_update_id (if updateID < update_id u then update_id u else updateID) us"

definition legacy_pollUpdates_resume :: "fetch_result \<Rightarrow> outcome \<Rightarrow> poller \<Rightarrow> poller" where
  "legacy_pollUpdates_resume r d p =
     (let (updates, p1) = legacy_getUpdates r p;
          p2 = emit [OnUpdates updates d] p1
      in case d of
           Completes \<Rightarrow>
             (let updateID = greatest_update_id 0 updates
              in reschedule False
                   (if updateID \<noteq> 0 then set_offset (updateID + 1) p2 else p2))
         | Throws error \<Rightarrow> reschedule False (emit [LogError error] p2))"

section \<open>Runs of the polling loop\<close>

text \<open>
  A run after \<^verbatim>\<open>startPollUpdates\<close>: the request in flight settles, the cycle resumes,
  and when it has scheduled the next cycle the timeout fires and the next request is
  sent. Each element of the list is the way one cycle's request and dispatch settle.
  The run ends when a cycle schedules nothing.
\<close>

fun poll_run :: "(fetch_result \<times> outcome) list \<Rightarrow> poller \<Rightarrow> poller" where
  "poll_run [] p = p"
| "poll_run ((r, d) # cs) p =
     (let p' = pollUpdates_resume r d p
      in if isPolling p'
         then (case pollingID p' of
                 Some i \<Rightarrow> poll_run cs (timer_fires i p')
               | None \<Rightarrow> p')
         else p')"

text \<open>
  The contract of \<^verbatim>\<open>getUpdates\<close> that the poller relies on: an answer to a request
  with offset \<open>c\<close> is in ascending \<^verbatim>\<open>update_id\<close> order and holds no Update below
  \<open>c\<close>. \<open>fetch_contract\<close> says that every answer of a run keeps it, for the offset
  that the cycle sent.
\<close>

definition answers_from :: "int \<Rightarrow> fetch_result \<Rightarrow> bool" where
  "answers_from c r =
     (case r of
        Inl error \<Rightarrow> True
      | Inr updates \<Rightarrow>
          sorted (map update_id updates) \<and> list_all (\<lambda>u. c \<le> update_id u) updates)"

fun fetch_contract :: "(fetch_result \<times> outcome) list \<Rightarrow> poller \<Rightarrow> bool" where
  "fetch_contract [] p = True"
| "fetch_contract ((r, d) # cs) p =
     (answers_from (offset p) r \<and>
      (let p' = pollUpdates_resume r d p
       in if isPolling p'
          then (case pollingID p' of
                  Some i \<Rightarrow> fetch_contract cs (timer_fires i p')
                | None \<Rightarrow> True)
          else True))"

text \<open>
  The batches handed to \<^verbatim>\<open>onUpdates\<close>, those whose dispatch completed, and the number
  of batches that hold a given \<^verbatim>\<open>update_id\<close>.
\<close>

fun dispatched :: "effect list \<Rightarrow> update list list" where
  "dispatched [] = []"
| "dispatched (OnUpdates updates d # es) = updates # dispatched es"
| "dispatched (e # es) = dispatched es"

fun completed :: "effect list \<Rightarrow> update list list" where
  "completed [] = []"
| "completed (OnUpdates updates Completes # es) = updates # completed es"
| "completed (e # es) = completed es"

definition occurrences :: "int \<Rightarrow> update list list \<Rightarrow> nat" where
  "occurrences n batches = length (filter (\<lambda>updates. n \<in> set (map update_id updates)) batches)"

text \<open>The batches that one cycle hands to \<^verbatim>\<open>onUpdates\<close>, given the way its request settles.\<close>

definition cycle_batches :: "fetch_result \<Rightarrow> update list list" where
  "cycle_batches r = (case r of Inl e \<Rightarrow> [] | Inr us \<Rightarrow> if us = [] then [] else [us])"

text \<open>
  The invariant of a run: every Update of a batch whose dispatch completed lies below
  the cursor, and no \<^verbatim>\<open>update_id\<close> is in two such batches.
\<close>

definition delivered_once :: "poller \<Rightarrow> bool" where
  "delivered_once p \<longleftrightarrow>
     (\<forall>b\<in>set (completed (effects p)). \<forall>u\<in>set b. update_id u < offset p) \<and>
     (\<forall>n. occurrences n (completed (effects p)) \<le> 1)"

section \<open>BotMaster (src/aztgbot/bot-master.js)\<close>

text \<open>
  A servant instance, as far as the master uses it. \<^verbatim>\<open>onCreate\<close> and \<^verbatim>\<open>onRemove\<close> are
  called only when they are functions (\<open>None\<close>: not a function) and are awaited; the
  value is the way the call settles. \<^verbatim>\<open>processUpdate\<close> is called without a check and
  without \<^verbatim>\<open>await\<close>; the value is what the call does before it returns (a call of a
  missing method throws).
\<close>

record servant =
  onCreate :: "outcome option"
  processUpdate :: "update \<Rightarrow> outcome"
  onRemove :: "outcome option"

record bot =
  lastActiveTime :: int
  bot_instance :: servant

text \<open>
  What the master does, in program order: logger calls, the construction of a servant,
  the hook calls with the way they settled, \<^verbatim>\<open>delete this.bots[identifier]\<close>, the call
  of \<^verbatim>\<open>botPoller.stopPollUpdates\<close> and the stop callback.
\<close>

datatype 'k event =
    Debug
  | Construct 'k
  | OnCreate 'k outcome
  | ProcessUpdate 'k update outcome
  | OnRemove 'k outcome
  | Delete 'k
  | StopPollUpdates
  | StopCallback outcome

text \<open>
  The fields of the class that \<^verbatim>\<open>onUpdates\<close> and \<^verbatim>\<open>cleanup\<close> work on (\<^verbatim>\<open>botAPI\<close>,
  \<^verbatim>\<open>botID\<close> and \<^verbatim>\<open>botName\<close> are only passed on to the servants and the logger).
  \<^verbatim>\<open>BotServant\<close> is the servant that \<^verbatim>\<open>new this.BotServant(...)\<close> gives for an
  identifier. \<^verbatim>\<open>bots\<close> is the object used as a dictionary, kept as the list of its
  entries in the order \<^verbatim>\<open>Object.entries\<close> gives them, a new key at the end (JavaScript
  lists integer-like keys first, in numeric order; the order of the entries decides only
  the order of the \<^verbatim>\<open>onRemove\<close> calls among themselves and which reading of the clock
  a sweep takes for which entry, and the theorems on the sweep and on \<^verbatim>\<open>cleanup\<close> hold
  for the entries in any order). \<open>clock_reads\<close> counts the calls of \<^verbatim>\<open>Date.now\<close>: the
  clock is a function from the number of the call to the time read.
\<close>

record 'k master =
  identify :: "update \<Rightarrow> 'k"
  BotServant :: "'k \<Rightarrow> servant"
  destroyTimeout :: "int option"
  botPoller :: poller
  bots :: "('k \<times> bot) list"
  clock_reads :: nat
  events :: "'k event list"

record master_opts =
  opt_destroyTimeout :: "int option"
  opt_poller :: poller_opts

text \<open>
  The constructor. \<^verbatim>\<open>opts["destroyTimeout"] || 5 * 60 * 1000\<close> takes the default for a
  missing option, for \<^verbatim>\<open>null\<close> and for \<^verbatim>\<open>0\<close>.
\<close>

definition BotMaster :: "(update \<Rightarrow> 'k) \<Rightarrow> ('k \<Rightarrow> servant) \<Rightarrow> master_opts \<Rightarrow> 'k master" where
  "BotMaster idf srv opts =
     \<lparr> identify = idf,
       BotServant = srv,
       destroyTimeout =
         (case opt_destroyTimeout opts of
            None \<Rightarrow> Some (5 * 60 * 1000)
          | Some n \<Rightarrow> if n = 0 then Some (5 * 60 * 1000) else Some n),
       botPoller = BotPoller (opt_poller opts),
       bots = [],
       clock_reads = 0,
       events = [] \<rparr>"

definition record_events :: "'k event list \<Rightarrow> 'k master \<Rightarrow> 'k master" where
  "record_events es m = m\<lparr>events := events m @ es\<rparr>"

definition Date_now :: "(nat \<Rightarrow> int) \<Rightarrow> 'k master \<Rightarrow> int \<times> 'k master" where
  "Date_now now m = (now (clock_reads m), m\<lparr>clock_reads := Suc (clock_reads m)\<rparr>)"

definition delete_bot :: "'k \<Rightarrow> 'k master \<Rightarrow> 'k master" where
  "delete_bot k m = record_events [Delete k] (m\<lparr>bots := filter (\<lambda>e. fst e \<noteq> k) (bots m)\<rparr>)"

definition set_lastActiveTime :: "'k \<Rightarrow> int \<Rightarrow> 'k master \<Rightarrow> 'k master" where
  "set_lastActiveTime k t m =
     m\<lparr>bots := map (\<lambda>e. if fst e = k then (k, (snd e)\<lparr>lastActiveTime := t\<rparr>) else e) (bots m)\<rparr>"

text \<open>
  The body of the first loop of \<^verbatim>\<open>onUpdates\<close>, in two parts: \<open>deliver\<close> is the call of
  \<^verbatim>\<open>processUpdate\<close> and the write of \<^verbatim>\<open>lastActiveTime\<close>; \<open>handle_update\<close> creates the
  entry first when the identifier has none. An exception leaves the function at once,
  with everything written so far in place.
\<close>

definition deliver :: "(nat \<Rightarrow> int) \<Rightarrow> 'k \<Rightarrow> servant \<Rightarrow> update \<Rightarrow> 'k master \<Rightarrow> 'k master \<times> outcome" where
  "deliver now k inst u m =
     (case processUpdate inst u of
        Throws error \<Rightarrow> (record_events [ProcessUpdate k u (Throws error)] m, Throws error)
      | Completes \<Rightarrow>
          (let (t, m1) = Date_now now (record_events [ProcessUpdate k u Completes] m)
           in (set_lastActiveTime k t m1, Completes)))"

definition handle_update :: "(nat \<Rightarrow> int) \<Rightarrow> update \<Rightarrow> 'k master \<Rightarrow> 'k master \<times> outcome" where
  "handle_update now u m =
     (let k = identify m u
      in case map_of (bots m) k of
           Some b \<Rightarrow> deliver now k (bot_instance b) u m
         | None \<Rightarrow>
             (let inst = BotServant m k;
                  m1 = record_events [Construct k, Debug]
                         (m\<lparr>bots := bots m @ [(k, \<lparr>lastActiveTime = 0, bot_instance = inst\<rparr>)]\<rparr>)
              in case onCreate inst of
                   None \<Rightarrow> deliver now k inst u m1
                 | Some Completes \<Rightarrow> deliver now k inst u (record_events [OnCreate k Completes] m1)
                 | Some (Throws error) \<Rightarrow>
                     (record_events [OnCreate k (Throws error)] m1, Throws error)))"

fun handle_updates :: "(nat \<Rightarrow> int) \<Rightarrow> update list \<Rightarrow> 'k master \<Rightarrow> 'k master \<times> outcome" where
  "handle_updates now [] m = (m, Completes)"
| "handle_updates now (u # us) m =
     (case handle_update now u m of
        (m1, Throws error) \<Rightarrow> (m1, Throws error)
      | (m1, Completes) \<Rightarrow> handle_updates now us m1)"

text \<open>
  The second loop of \<^verbatim>\<open>onUpdates\<close>, over the entries the dictionary has when the loop
  starts: the clock is read for each entry, and an entry idle for more than the timeout
  has its \<^verbatim>\<open>onRemove\<close> awaited, if it is a function, and is deleted.
\<close>

fun sweep :: "(nat \<Rightarrow> int) \<Rightarrow> int \<Rightarrow> ('k \<times> bot) list \<Rightarrow> 'k master \<Rightarrow> 'k master \<times> outcome" where
  "sweep now T [] m = (m, Completes)"
| "sweep now T ((k, b) # es) m =
     (let (t, m1) = Date_now now m
      in if t - lastActiveTime b > T
         then (case onRemove (bot_instance b) of
                 None \<Rightarrow> sweep now T es (delete_bot k (record_events [Debug] m1))
               | Some Completes \<Rightarrow>
                   sweep now T es (delete_bot k (record_events [OnRemove k Completes, Debug] m1))
               | Some (Throws error) \<Rightarrow>
                   (record_events [OnRemove k (Throws error)] m1, Throws error))
         else sweep now T es m1)"

definition onUpdates :: "(nat \<Rightarrow> int) \<Rightarrow> update list \<Rightarrow> 'k master \<Rightarrow> 'k master \<times> outcome" where
  "onUpdates now updates m =
     (case handle_updates now updates m of
        (m1, Throws error) \<Rightarrow> (m1, Throws error)
      | (m1, Completes) \<Rightarrow>
          (case destroyTimeout m1 of
             None \<Rightarrow> (m1, Completes)
           | Some T \<Rightarrow> sweep now T (bots m1) m1))"

text \<open>
  \<^verbatim>\<open>cleanup\<close>, the closure that \<^verbatim>\<open>loop\<close> registers for SIGINT and for SIGTERM. The
  first argument is the stop callback of \<^verbatim>\<open>loop\<close> (\<open>None\<close>: not a function) with the way
  it settles.
\<close>

fun remove_all :: "('k \<times> bot) list \<Rightarrow> 'k master \<Rightarrow> 'k master \<times> outcome" where
  "remove_all [] m = (m, Completes)"
| "remove_all ((k, b) # es) m =
     (case onRemove (bot_instance b) of
        None \<Rightarrow> remove_all es (delete_bot k m)
      | Some Completes \<Rightarrow> remove_all es (delete_bot k (record_events [OnRemove k Completes] m))
      | Some (Throws error) \<Rightarrow> (record_events [OnRemove k (Throws error)] m, Throws error))"

definition cleanup :: "outcome option \<Rightarrow> 'k master \<Rightarrow> 'k master \<times> outcome" where
  "cleanup stopCallback m =
     (let m1 = record_events [StopPollUpdates] (m\<lparr>botPoller := stopPollUpdates (botPoller m)\<rparr>)
      in case remove_all (bots m1) m1 of
           (m2, Throws error) \<Rightarrow> (m2, Throws error)
         | (m2, Completes) \<Rightarrow>
             (case stopCallback of
                None \<Rightarrow> (record_events [Debug] m2, Completes)
              | Some oc \<Rightarrow> (record_events [Debug, StopCallback oc] m2, oc)))"

datatype signal = SIGINT | SIGTERM

definition on_signal :: "outcome option \<Rightarrow> signal \<Rightarrow> 'k master \<Rightarrow> 'k master \<times> outcome" where
  "on_signal stopCallback s m =
     (case s of
        SIGINT \<Rightarrow> cleanup stopCallback m
      | SIGTERM \<Rightarrow> cleanup stopCallback m)"


section \<open>Runs of the master and properties of its events\<close>

text \<open>
  What reaches the master from outside, one after another: a batch handed to
  \<^verbatim>\<open>onUpdates\<close> by the poller, or a termination signal. The state written by a call
  that throws stays as it is.
\<close>

datatype stimulus = Batch "update list" | Signal signal

fun master_run :: "(nat \<Rightarrow> int) \<Rightarrow> outcome option \<Rightarrow> stimulus list \<Rightarrow> 'k master \<Rightarrow> 'k master" where
  "master_run now stopCallback [] m = m"
| "master_run now stopCallback (Batch updates # ss) m =
     master_run now stopCallback ss (fst (onUpdates now updates m))"
| "master_run now stopCallback (Signal s # ss) m =
     master_run now stopCallback ss (fst (on_signal stopCallback s m))"

text \<open>
  The life of one identifier \<open>k\<close>, read off the events: absent, constructed with
  \<^verbatim>\<open>onCreate\<close> still to be awaited, failed (the awaited \<^verbatim>\<open>onCreate\<close> call threw), or
  ready (\<^verbatim>\<open>onCreate\<close> completed, or the servant has none). \<open>lifecycle_step\<close> refuses
  (\<open>None\<close>) a construction for an identifier that is not absent, an \<^verbatim>\<open>onCreate\<close> that
  does not follow the construction, and a \<^verbatim>\<open>processUpdate\<close> call for an identifier
  that is absent or whose awaited \<^verbatim>\<open>onCreate\<close> call has not settled. With \<open>strict\<close> it
  also refuses a \<^verbatim>\<open>processUpdate\<close> call for an identifier whose \<^verbatim>\<open>onCreate\<close> call
  threw; without \<open>strict\<close> such a call is accepted and the identifier stays failed.
  \<open>hasCreate k\<close> says whether the servant constructed for \<open>k\<close> has an \<^verbatim>\<open>onCreate\<close>
  function.
\<close>

datatype phase = Absent | Pending | Failed | Ready

fun lifecycle_step :: "bool \<Rightarrow> ('k \<Rightarrow> bool) \<Rightarrow> 'k \<Rightarrow> phase \<Rightarrow> 'k event \<Rightarrow> phase option" where
  "lifecycle_step strict hasCreate k ph (Construct k') =
     (if k' = k
      then (if ph = Absent then Some (if hasCreate k then Pending else Ready) else None)
      else Some ph)"
| "lifecycle_step strict hasCreate k ph (OnCreate k' oc) =
     (if k' = k
      then (if ph = Pending
            then (case oc of Completes \<Rightarrow> Some Ready | Throws error \<Rightarrow> Some Failed)
            else None)
      else Some ph)"
| "lifecycle_step strict hasCreate k ph (ProcessUpdate k' u oc) =
     (if k' = k
      then (if ph = Ready then Some Ready
            else if ph = Failed \<and> \<not> strict then Some Failed
            else None)
      else Some ph)"
| "lifecycle_step strict hasCreate k ph (Delete k') = (if k' = k then Some Absent else Some ph)"
| "lifecycle_step strict hasCreate k ph (OnRemove k' oc) = Some ph"
| "lifecycle_step strict hasCreate k ph Debug = Some ph"
| "lifecycle_step strict hasCreate k ph StopPollUpdates = Some ph"
| "lifecycle_step strict hasCreate k ph (StopCallback oc) = Some ph"

fun lifecycle :: "bool \<Rightarrow> ('k \<Rightarrow> bool) \<Rightarrow> 'k \<Rightarrow> phase \<Rightarrow> 'k event list \<Rightarrow> phase option" where
  "lifecycle strict hasCreate k ph [] = Some ph"
| "lifecycle strict hasCreate k ph (e # es) =
     (case lifecycle_step strict hasCreate k ph e of
        None \<Rightarrow> None
      | Some ph' \<Rightarrow> lifecycle strict hasCreate k ph' es)"

text \<open>
  The phase that the state of the master shows for an identifier: absent without an
  entry; with an entry, failed when the \<^verbatim>\<open>onCreate\<close> of its servant throws, ready
  otherwise.
\<close>

definition live_phase :: "servant \<Rightarrow> phase" where
  "live_phase inst =
     (case onCreate inst of
        Some (Throws error) \<Rightarrow> Failed
      | _ \<Rightarrow> Ready)"

definition phase_of :: "'k master \<Rightarrow> 'k \<Rightarrow> phase" where
  "phase_of m k = (if k \<in> fst ` set (bots m) then live_phase (BotServant m k) else Absent)"

text \<open>
  The events of removing one entry, in \<^verbatim>\<open>cleanup\<close> and in the sweep of \<^verbatim>\<open>onUpdates\<close>
  (which logs before it deletes), and the events of the stop callback.
\<close>

definition removal_events :: "'k \<times> bot \<Rightarrow> 'k event list" where
  "removal_events e =
     (case onRemove (bot_instance (snd e)) of
        Some Completes \<Rightarrow> [OnRemove (fst e) Completes, Delete (fst e)]
      | _ \<Rightarrow> [Delete (fst e)])"

definition eviction_events :: "'k \<times> bot \<Rightarrow> 'k event list" where
  "eviction_events e =
     (case onRemove (bot_instance (snd e)) of
        Some Completes \<Rightarrow> [OnRemove (fst e) Completes, Debug, Delete (fst e)]
      | _ \<Rightarrow> [Debug, Delete (fst e)])"

definition stop_events :: "outcome option \<Rightarrow> 'k event list" where
  "stop_events stopCallback =
     (case stopCallback of None \<Rightarrow> [Debug] | Some oc \<Rightarrow> [Debug, StopCallback oc])"

text \<open>An entry whose \<^verbatim>\<open>onRemove\<close> is missing or completes when awaited.\<close>

definition removable :: "'k \<times> bot \<Rightarrow> bool" where
  "removable e =
     (case onRemove (bot_instance (snd e)) of
        Some (Throws error) \<Rightarrow> False
      | _ \<Rightarrow> True)"

text \<open>
  The entries that a sweep over the entries \<open>es\<close> finds idle, when the clock has been
  read \<open>c\<close> times before the sweep.
\<close>

fun idle_entries :: "(nat \<Rightarrow> int) \<Rightarrow> int \<Rightarrow> nat \<Rightarrow> ('k \<times> bot) list \<Rightarrow> ('k \<times> bot) list" where
  "idle_entries now T c [] = []"
| "idle_entries now T c (e # es) =
     (if now c - lastActiveTime (snd e) > T
      then e # idle_entries now T (Suc c) es
      else idle_entries now T (Suc c) es)"

text \<open>
  The invariant of the master between calls: its servants are those of \<open>srv\<close>, the
  dictionary has one entry for a key, and for every identifier the events so far are
  accepted and end in the phase that the state shows. With \<open>strict\<close>, no servant has
  an \<^verbatim>\<open>onCreate\<close> that throws.
\<close>

definition tracked :: "bool \<Rightarrow> ('k \<Rightarrow> bool) \<Rightarrow> ('k \<Rightarrow> servant) \<Rightarrow> 'k master \<Rightarrow> bool" where
  "tracked strict hasCreate srv m \<longleftrightarrow>
     BotServant m = srv \<and>
     (\<forall>k. hasCreate k = (onCreate (srv k) \<noteq> None)) \<and>
     (strict \<longrightarrow> (\<forall>k. live_phase (srv k) = Ready)) \<and>
     distinct (map fst (bots m)) \<and>
     (\<forall>k. lifecycle strict hasCreate k Absent (events m) = Some (phase_of m k))"

text \<open>
  Inputs for the examples: the base class of \<^verbatim>\<open>bot-servant.js\<close>, whose three methods
  do nothing, a servant whose \<^verbatim>\<open>onCreate\<close> throws, and the options of a master with a
  given \<^verbatim>\<open>destroyTimeout\<close> option.
\<close>

definition base_servant :: servant where
  "base_servant =
     \<lparr>onCreate = Some Completes, processUpdate = (\<lambda>u. Completes), onRemove = Some Completes\<rparr>"

definition failing_servant :: servant where
  "failing_servant =
     \<lparr>onCreate = Some (Throws (JsError ''no database'')), processUpdate = (\<lambda>u. Completes),
      onRemove = Some Completes\<rparr>"

definition opts_with :: "int option \<Rightarrow> master_opts" where
  "opts_with t =
     \<lparr>opt_destroyTimeout = t,
      opt_poller = \<lparr>opt_pollingInterval = None, opt_skippingUpdates = None\<rparr>\<rparr>"

section \<open>The cursor after one polling cycle\<close>

lemma offset_emit [simp]: "offset (emit es p) = offset p"
  by (simp add: emit_def)

lemma offset_reschedule [simp]: "offset (reschedule c p) = offset p"
  by (simp add: reschedule_def setTimeout_def Let_def)

lemma offset_cool_down [simp]: "offset (cool_down e p) = offset p"
  by (simp add: cool_down_def)

lemma offset_set_offset [simp]: "offset (set_offset n p) = n"
  by (simp add: set_offset_def)

lemma offset_pollUpdates_issue [simp]: "offset (pollUpdates_issue p) = offset p"
  by (simp add: pollUpdates_issue_def)

lemma offset_after_dispatch:
  "updates \<noteq> [] \<Longrightarrow>
   offset (pollUpdates_resume (Inr updates) Completes p) = update_id (last updates) + 1"
  by (simp add: pollUpdates_resume_def)

lemma Max_sorted_last:
  fixes xs :: "int list"
  assumes "sorted xs" and "xs \<noteq> []"
  shows "Max (set xs) = last xs"
proof (rule Max_eqI)
  show "finite (set xs)" by simp
next
  fix y assume "y \<in> set xs"
  then obtain i where i: "i < length xs" "xs ! i = y"
    by (auto simp: in_set_conv_nth)
  with assms have "xs ! i \<le> xs ! (length xs - 1)"
    by (intro sorted_nth_mono) auto
  with i assms show "y \<le> last xs"
    by (simp add: last_conv_nth)
next
  from assms show "last xs \<in> set xs" by simp
qed

text \<open>
  C1, as amended. One polling cycle, for any state and any way the request settles.
  When the batch is not empty and the dispatch completes, the cursor after the cycle is
  the \<^verbatim>\<open>update_id\<close> of the last Update of the batch plus one; for a batch in ascending
  \<^verbatim>\<open>update_id\<close> order that is the greatest \<^verbatim>\<open>update_id\<close> of the batch plus one. When
  the batch is empty or the request fails, the cursor is unchanged.
\<close>

theorem cursor_after_cycle:
  "(updates \<noteq> [] \<longrightarrow>
      offset (pollUpdates (Inr updates) Completes p) = update_id (last updates) + 1) \<and>
   (updates \<noteq> [] \<and> sorted (map update_id updates) \<longrightarrow>
      offset (pollUpdates (Inr updates) Completes p) = Max (update_id ` set updates) + 1) \<and>
   offset (pollUpdates (Inr []) d p) = offset p \<and>
   offset (pollUpdates (Inl error) d p) = offset p"
proof (intro conjI impI)
  assume "updates \<noteq> []"
  then show "offset (pollUpdates (Inr updates) Completes p) = update_id (last updates) + 1"
    by (simp add: pollUpdates_def offset_after_dispatch)
next
  assume a: "updates \<noteq> [] \<and> sorted (map update_id updates)"
  then have "Max (set (map update_id updates)) = last (map update_id updates)"
    by (intro Max_sorted_last) auto
  with a have "Max (update_id ` set updates) = update_id (last updates)"
    by (simp add: last_map)
  with a show "offset (pollUpdates (Inr updates) Completes p) = Max (update_id ` set updates) + 1"
    by (simp add: pollUpdates_def offset_after_dispatch)
next
  show "offset (pollUpdates (Inr []) d p) = offset p"
    by (simp add: pollUpdates_def pollUpdates_resume_def)
next
  show "offset (pollUpdates (Inl error) d p) = offset p"
    by (simp add: pollUpdates_def pollUpdates_resume_def)
qed

theorem cursor_after_cycle_witness:
  "[\<lparr>update_id = 5, body = ''a''\<rparr>, \<lparr>update_id = 7, body = ''b''\<rparr>] \<noteq> [] \<and>
   sorted (map update_id [\<lparr>update_id = 5, body = ''a''\<rparr>, \<lparr>update_id = 7, body = ''b''\<rparr>]) \<and>
   offset (pollUpdates (Inr [\<lparr>update_id = 5, body = ''a''\<rparr>, \<lparr>update_id = 7, body = ''b''\<rparr>])
             Completes (BotPoller \<lparr>opt_pollingInterval = None, opt_skippingUpdates = None\<rparr>)) = 8"
  using cursor_after_cycle
    [of "[\<lparr>update_id = 5, body = ''a''\<rparr>, \<lparr>update_id = 7, body = ''b''\<rparr>]"
        "BotPoller \<lparr>opt_pollingInterval = None, opt_skippingUpdates = None\<rparr>"]
  by simp

text \<open>
  C1, as stated, fails: for the batch with the Updates 7 and 5, in this order, the
  dispatch completes and the cursor after the cycle is 6, while the greatest
  \<^verbatim>\<open>update_id\<close> of the batch plus one is 8.
\<close>

theorem unordered_batch_counterexample:
  "offset (pollUpdates (Inr [\<lparr>update_id = 7, body = ''a''\<rparr>, \<lparr>update_id = 5, body = ''b''\<rparr>])
             Completes (BotPoller \<lparr>opt_pollingInterval = None, opt_skippingUpdates = None\<rparr>)) = 6 \<and>
   Max (update_id ` set [\<lparr>update_id = 7, body = ''a''\<rparr>, \<lparr>update_id = 5, body = ''b''\<rparr>]) + 1 = 8"
  by (simp add: pollUpdates_def pollUpdates_resume_def)

section \<open>Effects of a cycle, of a start and of a run\<close>

lemmas poller_defs = pollUpdates_def pollUpdates_resume_def pollUpdates_issue_def reschedule_def
  setTimeout_def emit_def set_offset_def cool_down_def timer_fires_def

lemma dispatched_append: "dispatched (xs @ ys) = dispatched xs @ dispatched ys"
  by (induction xs rule: dispatched.induct) simp_all

lemma completed_append: "completed (xs @ ys) = completed xs @ completed ys"
  by (induction xs rule: completed.induct) simp_all

lemma occurrences_append:
  "occurrences n (xs @ ys) = occurrences n xs + occurrences n ys"
  by (simp add: occurrences_def)

lemma occurrences_zero:
  "occurrences n bs = 0 \<longleftrightarrow> (\<forall>b\<in>set bs. n \<notin> update_id ` set b)"
  by (auto simp: occurrences_def filter_empty_conv)

lemma resume_effects:
  "\<exists>Y. effects (pollUpdates_resume r d p) = effects p @ Y \<and>
       dispatched Y = cycle_batches r \<and>
       completed Y = (if d = Completes then cycle_batches r else [])"
  by (cases r; cases d) (auto simp: poller_defs cycle_batches_def Let_def)

lemma resume_offset:
  "offset (pollUpdates_resume r d p) =
     (case r of
        Inl e \<Rightarrow> offset p
      | Inr us \<Rightarrow> if us \<noteq> [] \<and> d = Completes then update_id (last us) + 1 else offset p)"
  by (cases r; cases d) (auto simp: poller_defs Let_def)

lemma timer_fires_effects:
  "\<exists>Z. effects (timer_fires i p) = effects p @ Z \<and> dispatched Z = [] \<and> completed Z = []"
  by (auto simp: poller_defs)

lemma timer_fires_offset: "offset (timer_fires i p) = offset p"
  by (simp add: poller_defs)

lemma sorted_le_last:
  fixes us :: "update list"
  assumes "sorted (map update_id us)" "u \<in> set us"
  shows "update_id u \<le> update_id (last us)"
proof -
  from assms(2) have ne: "us \<noteq> []" by auto
  have "update_id u \<in> set (map update_id us)" using assms(2) by simp
  then have "update_id u \<le> Max (set (map update_id us))" by (intro Max_ge) auto
  also have "\<dots> = last (map update_id us)" using assms(1) ne by (intro Max_sorted_last) auto
  finally show ?thesis using ne by (simp add: last_map)
qed

lemma resume_offset_mono:
  "answers_from (offset p) r \<Longrightarrow> offset p \<le> offset (pollUpdates_resume r d p)"
proof (cases r)
  case (Inl e)
  then show ?thesis by (simp add: resume_offset)
next
  case (Inr us)
  assume a: "answers_from (offset p) r"
  show ?thesis
  proof (cases "us \<noteq> [] \<and> d = Completes")
    case True
    then have "last us \<in> set us" by simp
    with a Inr have "offset p \<le> update_id (last us)"
      by (auto simp: answers_from_def list_all_iff)
    with True Inr show ?thesis by (simp add: resume_offset)
  next
    case False
    with Inr show ?thesis by (auto simp: resume_offset)
  qed
qed


lemma run_floor:
  "fetch_contract cs q \<Longrightarrow>
   \<exists>X. effects (poll_run cs q) = effects q @ X \<and>
       (\<forall>b\<in>set (dispatched X). \<forall>u\<in>set b. offset q \<le> update_id u)"
proof (induction cs arbitrary: q)
  case Nil
  then show ?case by simp
next
  case (Cons c cs)
  obtain r d where c: "c = (r, d)" by (cases c)
  let ?p = "pollUpdates_resume r d q"
  from Cons.prems c have ans: "answers_from (offset q) r" by simp
  obtain Y where Y: "effects ?p = effects q @ Y" "dispatched Y = cycle_batches r"
    using resume_effects by blast
  have Yfloor: "\<forall>b\<in>set (dispatched Y). \<forall>u\<in>set b. offset q \<le> update_id u"
    using ans Y(2) by (auto simp: cycle_batches_def answers_from_def list_all_iff split: sum.splits if_splits)
  have mono: "offset q \<le> offset ?p" using ans by (rule resume_offset_mono)
  show ?case
  proof (cases "isPolling ?p")
    case False
    with c Y Yfloor show ?thesis by (auto simp: Let_def)
  next
    case True
    show ?thesis
    proof (cases "pollingID ?p")
      case None
      with True c Y Yfloor show ?thesis by (auto simp: Let_def)
    next
      case (Some i)
      let ?q' = "timer_fires i ?p"
      from Cons.prems c True Some have fc: "fetch_contract cs ?q'" by (simp add: Let_def)
      from Cons.IH[OF fc] obtain X where
        X: "effects (poll_run cs ?q') = effects ?q' @ X"
           "\<forall>b\<in>set (dispatched X). \<forall>u\<in>set b. offset ?q' \<le> update_id u" by blast
      obtain Z where Z: "effects ?q' = effects ?p @ Z" "dispatched Z = []"
        using timer_fires_effects by blast
      have run: "poll_run (c # cs) q = poll_run cs ?q'"
        using c True Some by (simp add: Let_def)
      have "effects (poll_run (c # cs) q) = effects q @ (Y @ Z @ X)"
        using run X(1) Z(1) Y(1) by simp
      moreover have "\<forall>b\<in>set (dispatched (Y @ Z @ X)). \<forall>u\<in>set b. offset q \<le> update_id u"
        using Yfloor X(2) Z(2) mono by (fastforce simp: dispatched_append timer_fires_offset)
      ultimately show ?thesis by blast
    qed
  qed
qed

lemma resume_delivered_once:
  assumes J: "delivered_once p" and ans: "answers_from (offset p) r"
  shows "delivered_once (pollUpdates_resume r d p)"
proof -
  let ?p = "pollUpdates_resume r d p"
  obtain Y where Y: "effects ?p = effects p @ Y"
      "completed Y = (if d = Completes then cycle_batches r else [])"
    using resume_effects by blast
  have mono: "offset p \<le> offset ?p" using ans by (rule resume_offset_mono)
  show ?thesis
  proof (cases "d = Completes \<and> cycle_batches r \<noteq> []")
    case False
    then have "completed (effects ?p) = completed (effects p)"
      using Y by (auto simp: completed_append)
    with J mono show ?thesis by (fastforce simp: delivered_once_def)
  next
    case True
    then obtain us where us: "r = Inr us" "us \<noteq> []" "d = Completes"
      by (auto simp: cycle_batches_def split: sum.splits if_splits)
    have comp: "completed (effects ?p) = completed (effects p) @ [us]"
      using Y us by (simp add: completed_append cycle_batches_def)
    have off: "offset ?p = update_id (last us) + 1"
      using us by (simp add: resume_offset)
    have srt: "sorted (map update_id us)" and low: "\<forall>u\<in>set us. offset p \<le> update_id u"
      using ans us by (auto simp: answers_from_def list_all_iff)
    have new: "\<forall>u\<in>set us. update_id u < offset ?p"
      using sorted_le_last[OF srt] off by fastforce
    have old: "\<forall>b\<in>set (completed (effects p)). \<forall>u\<in>set b. update_id u < offset ?p"
      using J mono by (fastforce simp: delivered_once_def)
    have occ: "occurrences n (completed (effects ?p)) \<le> 1" for n
    proof (cases "n \<in> update_id ` set us")
      case True
      then have "offset p \<le> n" using low by auto
      then have "occurrences n (completed (effects p)) = 0"
        using J unfolding occurrences_zero delivered_once_def by fastforce
      then show ?thesis by (simp add: comp occurrences_append occurrences_def)
    next
      case False
      then have "occurrences n [us] = 0" by (simp add: occurrences_def)
      with J show ?thesis by (simp add: comp occurrences_append delivered_once_def)
    qed
    show ?thesis unfolding delivered_once_def
      using new old occ by (auto simp: comp)
  qed
qed

lemma timer_fires_delivered_once:
  "delivered_once p \<Longrightarrow> delivered_once (timer_fires i p)"
proof -
  assume J: "delivered_once p"
  obtain Z where "effects (timer_fires i p) = effects p @ Z" "completed Z = []"
    using timer_fires_effects by blast
  then have "completed (effects (timer_fires i p)) = completed (effects p)"
    by (simp add: completed_append)
  with J show ?thesis by (simp add: delivered_once_def timer_fires_offset)
qed

lemma run_delivered_once:
  "fetch_contract cs q \<Longrightarrow> delivered_once q \<Longrightarrow> delivered_once (poll_run cs q)"
proof (induction cs arbitrary: q)
  case Nil
  then show ?case by simp
next
  case (Cons c cs)
  obtain r d where c: "c = (r, d)" by (cases c)
  let ?p = "pollUpdates_resume r d q"
  from Cons.prems c have ans: "answers_from (offset q) r" by simp
  have Jp: "delivered_once ?p" using Cons.prems(2) ans by (rule resume_delivered_once)
  show ?case
  proof (cases "isPolling ?p")
    case False
    with c Jp show ?thesis by (simp add: Let_def)
  next
    case True
    show ?thesis
    proof (cases "pollingID ?p")
      case None
      with True c Jp show ?thesis by (simp add: Let_def)
    next
      case (Some i)
      from Cons.prems c True Some have fc: "fetch_contract cs (timer_fires i ?p)"
        by (simp add: Let_def)
      have "delivered_once (poll_run cs (timer_fires i ?p))"
        using fc timer_fires_delivered_once[OF Jp] by (rule Cons.IH)
      with c True Some show ?thesis by (simp add: Let_def)
    qed
  qed
qed


lemmas start_defs = startPollUpdates_def skipUpdates_def stopPollUpdates_def clearTimeout_def BotPoller_def

text \<open>
  C2. In a polling cycle with a non-empty batch, the effects are in this order: the
  request, the awaited \<^verbatim>\<open>onUpdates\<close> call with the way it settled, and only then the
  write of the cursor. When the call throws there is no write: the cursor stays where
  it was, at or below every Update of the batch when the answer kept the contract, the
  next cycle is scheduled after the cool-down interval, and its request carries the
  same offset again.
\<close>

theorem dispatch_awaited_before_cursor:
  "updates \<noteq> [] \<longrightarrow>
   effects (pollUpdates (Inr updates) Completes p) =
     effects p @ [LogDebug, GetUpdates (offset p), LogDebug, OnUpdates updates Completes,
                  SetOffset (update_id (last updates) + 1)]
       @ (if isPolling p then [SetTimeout (next_timer p) (pollingInterval p)] else []) \<and>
   effects (pollUpdates (Inr updates) (Throws error) p) =
     effects p @ [LogDebug, GetUpdates (offset p), LogDebug, OnUpdates updates (Throws error),
                  LogWarn ''Poller: Failed to poll updates, cool down.'', LogError error]
       @ (if isPolling p then [SetTimeout (next_timer p) (coolDownInterval p)] else []) \<and>
   offset (pollUpdates (Inr updates) (Throws error) p) = offset p \<and>
   (answers_from (offset p) (Inr updates) \<longrightarrow>
      (\<forall>u\<in>set updates. offset (pollUpdates (Inr updates) (Throws error) p) \<le> update_id u)) \<and>
   (isPolling p \<longrightarrow>
      effects (timer_fires (next_timer p) (pollUpdates (Inr updates) (Throws error) p)) =
        effects (pollUpdates (Inr updates) (Throws error) p) @ [LogDebug, GetUpdates (offset p)])"
  by (simp add: poller_defs Let_def answers_from_def list_all_iff)

theorem dispatch_awaited_before_cursor_witness:
  "[\<lparr>update_id = 5, body = ''a''\<rparr>] \<noteq> [] \<and>
   answers_from 0 (Inr [\<lparr>update_id = 5, body = ''a''\<rparr>]) \<and>
   effects (pollUpdates (Inr [\<lparr>update_id = 5, body = ''a''\<rparr>]) (Throws (JsError ''boom''))
             ((BotPoller \<lparr>opt_pollingInterval = None, opt_skippingUpdates = None\<rparr>)\<lparr>isPolling := True\<rparr>)) =
     [LogDebug, GetUpdates 0, LogDebug,
      OnUpdates [\<lparr>update_id = 5, body = ''a''\<rparr>] (Throws (JsError ''boom'')),
      LogWarn ''Poller: Failed to poll updates, cool down.'', LogError (JsError ''boom''),
      SetTimeout 0 6000] \<and>
   offset (pollUpdates (Inr [\<lparr>update_id = 5, body = ''a''\<rparr>]) (Throws (JsError ''boom''))
             ((BotPoller \<lparr>opt_pollingInterval = None, opt_skippingUpdates = None\<rparr>)\<lparr>isPolling := True\<rparr>)) = 0"
  using dispatch_awaited_before_cursor
    [of "[\<lparr>update_id = 5, body = ''a''\<rparr>]"
        "(BotPoller \<lparr>opt_pollingInterval = None, opt_skippingUpdates = None\<rparr>)\<lparr>isPolling := True\<rparr>"
        "JsError ''boom''"]
  by (simp add: BotPoller_def answers_from_def)

text \<open>
  The two parts of \<^verbatim>\<open>startPollUpdates\<close> and of \<^verbatim>\<open>skipUpdates\<close>, one right after the
  other, are the call that runs to its end.
\<close>

lemma skipUpdates_split: "skipUpdates r p = skipUpdates_resume r (skipUpdates_call p)"
  by (simp add: skipUpdates_def skipUpdates_resume_def skipUpdates_call_def Let_def
           split: sum.splits list.splits)

lemma startPollUpdates_split:
  "startPollUpdates r p =
     (if snd (startPollUpdates_call p)
      then startPollUpdates_resume r (fst (startPollUpdates_call p))
      else fst (startPollUpdates_call p))"
  by (simp add: startPollUpdates_def startPollUpdates_call_def startPollUpdates_resume_def
        skipUpdates_split Let_def)

text \<open>
  What the guards give: \<^verbatim>\<open>startPollUpdates\<close> changes nothing when the poller is
  polling and \<^verbatim>\<open>stopPollUpdates\<close> changes nothing when it is not, so a second call made
  after the first one has run to its end leaves the whole state (flag, cursor, pending
  timeouts, effects) as the first call left it.
\<close>

lemma guarded_start_stop:
  "(isPolling p \<longrightarrow> startPollUpdates r p = p) \<and>
   (isPolling p \<longrightarrow> startPollUpdates_call p = (p, False)) \<and>
   (\<not> isPolling p \<longrightarrow> stopPollUpdates p = p) \<and>
   startPollUpdates r' (startPollUpdates r p) = startPollUpdates r p \<and>
   stopPollUpdates (stopPollUpdates p) = stopPollUpdates p"
  by (simp add: startPollUpdates_def startPollUpdates_call_def stopPollUpdates_def
        clearTimeout_def pollUpdates_issue_def emit_def Let_def split: option.splits)

text \<open>
  C9, on the code: \<^verbatim>\<open>startPollUpdates\<close> is called twice in a row on a new poller with
  the default options. Both calls pass the guard and are suspended with a skipping
  request in flight, since the flag is set only after the \<^verbatim>\<open>await\<close>. When both have
  resumed, two polling requests are in flight, and when those two cycles have resumed,
  two timeouts are pending: two polling loops run. One call alone sends one skipping
  request and one polling request and leaves one timeout pending.
\<close>

theorem double_start_two_loops:
  "snd (startPollUpdates_call (BotPoller \<lparr>opt_pollingInterval = None, opt_skippingUpdates = None\<rparr>)) \<and>
   snd (startPollUpdates_call (fst (startPollUpdates_call
          (BotPoller \<lparr>opt_pollingInterval = None, opt_skippingUpdates = None\<rparr>)))) \<and>
   effects (startPollUpdates_resume (Inr []) (fst (startPollUpdates_call
          (BotPoller \<lparr>opt_pollingInterval = None, opt_skippingUpdates = None\<rparr>)))) =
     [SetOffset (- 1), GetUpdates (- 1), LogDebug, GetUpdates (- 1)] \<and>
   effects (startPollUpdates_resume (Inr []) (startPollUpdates_resume (Inr [])
          (fst (startPollUpdates_call (fst (startPollUpdates_call
             (BotPoller \<lparr>opt_pollingInterval = None, opt_skippingUpdates = None\<rparr>))))))) =
     [SetOffset (- 1), GetUpdates (- 1), SetOffset (- 1), GetUpdates (- 1),
      LogDebug, GetUpdates (- 1), LogDebug, GetUpdates (- 1)] \<and>
   timers (pollUpdates_resume (Inr []) Completes
          (startPollUpdates_resume (Inr []) (fst (startPollUpdates_call
             (BotPoller \<lparr>opt_pollingInterval = None, opt_skippingUpdates = None\<rparr>))))) =
     [(0, 1500)] \<and>
   timers (pollUpdates_resume (Inr []) Completes (pollUpdates_resume (Inr []) Completes
          (startPollUpdates_resume (Inr []) (startPollUpdates_resume (Inr [])
             (fst (startPollUpdates_call (fst (startPollUpdates_call
                (BotPoller \<lparr>opt_pollingInterval = None, opt_skippingUpdates = None\<rparr>))))))))) =
     [(0, 1500), (1, 1500)]"
  by (simp add: startPollUpdates_call_def startPollUpdates_resume_def skipUpdates_call_def
        skipUpdates_resume_def poller_defs BotPoller_def Let_def)

text \<open>
  C10. The cursor of a new poller is 0. \<^verbatim>\<open>skipUpdates\<close> with a rejected request leaves
  it at \<open>-1\<close>, and the first request of normal polling after such a start is sent
  with offset \<open>-1\<close>.
\<close>

theorem failed_skip_leaves_cursor:
  "offset (BotPoller opts) = 0 \<and>
   offset (skipUpdates (Inl error) p) = - 1 \<and>
   (\<not> isPolling p \<and> (skippingUpdates p = None \<or> skippingUpdates p = Some True) \<longrightarrow>
      offset (startPollUpdates (Inl error) p) = - 1 \<and>
      effects (startPollUpdates (Inl error) p) =
        effects p @ [SetOffset (- 1), GetUpdates (- 1),
                     LogWarn ''Poller: Failed to skip updates before polling.'', LogError error,
                     LogDebug, GetUpdates (- 1)])"
  by (auto simp: start_defs pollUpdates_issue_def emit_def set_offset_def Let_def)

theorem failed_skip_leaves_cursor_witness:
  "\<not> isPolling (BotPoller \<lparr>opt_pollingInterval = None, opt_skippingUpdates = None\<rparr>) \<and>
   skippingUpdates (BotPoller \<lparr>opt_pollingInterval = None, opt_skippingUpdates = None\<rparr>) = None \<and>
   offset (startPollUpdates (Inl (JsError ''ETIMEDOUT''))
             (BotPoller \<lparr>opt_pollingInterval = None, opt_skippingUpdates = None\<rparr>)) = - 1 \<and>
   effects (startPollUpdates (Inl (JsError ''ETIMEDOUT''))
             (BotPoller \<lparr>opt_pollingInterval = None, opt_skippingUpdates = None\<rparr>)) =
     [SetOffset (- 1), GetUpdates (- 1),
      LogWarn ''Poller: Failed to skip updates before polling.'', LogError (JsError ''ETIMEDOUT''),
      LogDebug, GetUpdates (- 1)]"
  using failed_skip_leaves_cursor
    [of "\<lparr>opt_pollingInterval = None, opt_skippingUpdates = None\<rparr>" "JsError ''ETIMEDOUT''"
        "BotPoller \<lparr>opt_pollingInterval = None, opt_skippingUpdates = None\<rparr>"]
  by (simp add: BotPoller_def)


lemma start_effects:
  assumes "\<not> isPolling p" "skippingUpdates p = None \<or> skippingUpdates p = Some True"
  shows "effects (startPollUpdates r p) =
           effects p @ [SetOffset (- 1), GetUpdates (- 1)]
             @ (case r of
                  Inl error \<Rightarrow> [LogWarn ''Poller: Failed to skip updates before polling.'',
                                LogError error]
                | Inr [] \<Rightarrow> []
                | Inr (u # us) \<Rightarrow> [SetOffset (update_id u + 1)])
             @ [LogDebug, GetUpdates (offset (startPollUpdates r p))]"
  using assms
  by (auto simp: start_defs pollUpdates_issue_def emit_def set_offset_def Let_def
           split: sum.splits list.splits)

lemma start_offset:
  assumes "\<not> isPolling p" "skippingUpdates p = None \<or> skippingUpdates p = Some True"
  shows "offset (startPollUpdates (Inr (u # us)) p) = update_id u + 1"
  using assms
  by (auto simp: start_defs pollUpdates_issue_def emit_def set_offset_def Let_def)

lemma start_isPolling: "isPolling (startPollUpdates r p)"
  by (simp add: startPollUpdates_def pollUpdates_issue_def emit_def Let_def)

text \<open>
  C3. \<^verbatim>\<open>startPollUpdates\<close> on a poller that is not polling, with skipping enabled
  (\<^verbatim>\<open>skippingUpdates\<close> missing or \<^verbatim>\<open>true\<close>): it sends exactly one request with offset
  \<open>-1\<close>, hands nothing to \<^verbatim>\<open>onUpdates\<close>, and then polls (the flag is set and the first
  normal request is sent), also when the skipping request was rejected, which is logged
  and swallowed. When the answer holds an Update, the cursor is its \<^verbatim>\<open>update_id\<close> plus
  one, and in every run that follows and keeps the contract of \<^verbatim>\<open>getUpdates\<close> no
  batch handed to \<^verbatim>\<open>onUpdates\<close> holds that \<^verbatim>\<open>update_id\<close>.
\<close>

theorem skip_backlog_on_start:
  "\<not> isPolling p \<and> (skippingUpdates p = None \<or> skippingUpdates p = Some True) \<longrightarrow>
   isPolling (startPollUpdates r p) \<and>
   effects (startPollUpdates r p) =
     effects p @ [SetOffset (- 1), GetUpdates (- 1)]
       @ (case r of
            Inl error \<Rightarrow> [LogWarn ''Poller: Failed to skip updates before polling.'',
                          LogError error]
          | Inr [] \<Rightarrow> []
          | Inr (u # us) \<Rightarrow> [SetOffset (update_id u + 1)])
       @ [LogDebug, GetUpdates (offset (startPollUpdates r p))] \<and>
   (\<forall>u us. r = Inr (u # us) \<longrightarrow>
      offset (startPollUpdates r p) = update_id u + 1 \<and>
      (\<forall>cs. fetch_contract cs (startPollUpdates r p) \<longrightarrow>
         occurrences (update_id u)
           (dispatched (drop (length (effects p))
              (effects (poll_run cs (startPollUpdates r p))))) = 0))"
proof (intro impI conjI allI)
  assume a: "\<not> isPolling p \<and> (skippingUpdates p = None \<or> skippingUpdates p = Some True)"
  let ?p = "startPollUpdates r p"
  show "isPolling ?p" by (rule start_isPolling)
  show eff: "effects ?p =
     effects p @ [SetOffset (- 1), GetUpdates (- 1)]
       @ (case r of
            Inl error \<Rightarrow> [LogWarn ''Poller: Failed to skip updates before polling.'',
                          LogError error]
          | Inr [] \<Rightarrow> []
          | Inr (u # us) \<Rightarrow> [SetOffset (update_id u + 1)])
       @ [LogDebug, GetUpdates (offset ?p)]"
    using a by (intro start_effects) auto
  fix u us cs
  assume r: "r = Inr (u # us)"
  show off: "offset ?p = update_id u + 1"
    using a r by (simp add: start_offset)
  assume fc: "fetch_contract cs ?p"
  from run_floor[OF fc] obtain X where
    X: "effects (poll_run cs ?p) = effects ?p @ X"
       "\<forall>b\<in>set (dispatched X). \<forall>v\<in>set b. offset ?p \<le> update_id v" by blast
  have "dispatched (drop (length (effects p)) (effects (poll_run cs ?p))) = dispatched X"
    using X(1) eff r by (simp add: dispatched_append)
  moreover have "occurrences (update_id u) (dispatched X) = 0"
    unfolding occurrences_zero using X(2) off by fastforce
  ultimately show "occurrences (update_id u)
           (dispatched (drop (length (effects p)) (effects (poll_run cs ?p)))) = 0"
    by simp
qed

lemmas run_defs = poller_defs start_defs answers_from_def occurrences_def Let_def

theorem skip_backlog_on_start_witness:
  "\<not> isPolling (BotPoller \<lparr>opt_pollingInterval = None, opt_skippingUpdates = None\<rparr>) \<and>
   skippingUpdates (BotPoller \<lparr>opt_pollingInterval = None, opt_skippingUpdates = None\<rparr>) = None \<and>
   fetch_contract [(Inr [\<lparr>update_id = 42, body = ''new''\<rparr>], Completes)]
     (startPollUpdates (Inr [\<lparr>update_id = 41, body = ''old''\<rparr>])
        (BotPoller \<lparr>opt_pollingInterval = None, opt_skippingUpdates = None\<rparr>)) \<and>
   offset (startPollUpdates (Inr [\<lparr>update_id = 41, body = ''old''\<rparr>])
             (BotPoller \<lparr>opt_pollingInterval = None, opt_skippingUpdates = None\<rparr>)) = 42 \<and>
   effects (startPollUpdates (Inr [\<lparr>update_id = 41, body = ''old''\<rparr>])
             (BotPoller \<lparr>opt_pollingInterval = None, opt_skippingUpdates = None\<rparr>)) =
     [SetOffset (- 1), GetUpdates (- 1), SetOffset 42, LogDebug, GetUpdates 42] \<and>
   occurrences 41
     (dispatched (effects (poll_run [(Inr [\<lparr>update_id = 42, body = ''new''\<rparr>], Completes)]
        (startPollUpdates (Inr [\<lparr>update_id = 41, body = ''old''\<rparr>])
           (BotPoller \<lparr>opt_pollingInterval = None, opt_skippingUpdates = None\<rparr>))))) = 0"
  using skip_backlog_on_start
    [of "BotPoller \<lparr>opt_pollingInterval = None, opt_skippingUpdates = None\<rparr>"
        "Inr [\<lparr>update_id = 41, body = ''old''\<rparr>]"]
  by (simp add: run_defs)

text \<open>
  C8, as amended. In a run of a new poller whose answers keep the contract of
  \<^verbatim>\<open>getUpdates\<close>, each \<^verbatim>\<open>update_id\<close> is in at most one batch whose dispatch
  completed. (A batch whose dispatch throws is handed to \<^verbatim>\<open>onUpdates\<close> again by the
  next cycle: see the counterexample below.)
\<close>

theorem completed_batches_disjoint:
  "fetch_contract cs (startPollUpdates r (BotPoller opts)) \<longrightarrow>
   occurrences n (completed (effects (poll_run cs (startPollUpdates r (BotPoller opts))))) \<le> 1"
proof
  let ?p = "startPollUpdates r (BotPoller opts)"
  assume fc: "fetch_contract cs ?p"
  have "completed (effects ?p) = []"
    by (cases r; cases "opt_skippingUpdates opts")
       (auto simp: start_defs pollUpdates_issue_def emit_def set_offset_def Let_def
             split: list.splits)
  then have "delivered_once ?p" by (simp add: delivered_once_def occurrences_def)
  with fc have "delivered_once (poll_run cs ?p)" by (rule run_delivered_once)
  then show "occurrences n (completed (effects (poll_run cs ?p))) \<le> 1"
    by (simp add: delivered_once_def)
qed

text \<open>
  C8, as stated, fails: the dispatch of the batch with Update 5 throws, the cursor stays
  at 0, the next answer holds Update 5 again, and the batch is handed to \<^verbatim>\<open>onUpdates\<close>
  a second time.
\<close>

theorem redelivery_counterexample:
  "fetch_contract
     [(Inr [\<lparr>update_id = 5, body = ''a''\<rparr>], Throws (JsError ''boom'')),
      (Inr [\<lparr>update_id = 5, body = ''a''\<rparr>], Completes)]
     (startPollUpdates (Inr [])
        (BotPoller \<lparr>opt_pollingInterval = None, opt_skippingUpdates = Some False\<rparr>)) \<and>
   occurrences 5
     (dispatched (effects (poll_run
        [(Inr [\<lparr>update_id = 5, body = ''a''\<rparr>], Throws (JsError ''boom'')),
         (Inr [\<lparr>update_id = 5, body = ''a''\<rparr>], Completes)]
        (startPollUpdates (Inr [])
           (BotPoller \<lparr>opt_pollingInterval = None, opt_skippingUpdates = Some False\<rparr>))))) = 2"
  by (simp add: run_defs)

theorem completed_batches_disjoint_witness:
  "fetch_contract
     [(Inr [\<lparr>update_id = 5, body = ''a''\<rparr>], Throws (JsError ''boom'')),
      (Inr [\<lparr>update_id = 5, body = ''a''\<rparr>], Completes)]
     (startPollUpdates (Inr [])
        (BotPoller \<lparr>opt_pollingInterval = None, opt_skippingUpdates = Some False\<rparr>)) \<and>
   occurrences 5
     (completed (effects (poll_run
        [(Inr [\<lparr>update_id = 5, body = ''a''\<rparr>], Throws (JsError ''boom'')),
         (Inr [\<lparr>update_id = 5, body = ''a''\<rparr>], Completes)]
        (startPollUpdates (Inr [])
           (BotPoller \<lparr>opt_pollingInterval = None, opt_skippingUpdates = Some False\<rparr>))))) \<le> 1"
proof -
  have fc: "fetch_contract
     [(Inr [\<lparr>update_id = 5, body = ''a''\<rparr>], Throws (JsError ''boom'')),
      (Inr [\<lparr>update_id = 5, body = ''a''\<rparr>], Completes)]
     (startPollUpdates (Inr [])
        (BotPoller \<lparr>opt_pollingInterval = None, opt_skippingUpdates = Some False\<rparr>))"
    by (simp add: run_defs)
  with completed_batches_disjoint
    [of "[(Inr [\<lparr>update_id = 5, body = ''a''\<rparr>], Throws (JsError ''boom'')),
          (Inr [\<lparr>update_id = 5, body = ''a''\<rparr>], Completes)]"
        "Inr []" "\<lparr>opt_pollingInterval = None, opt_skippingUpdates = Some False\<rparr>" 5]
  show ?thesis by blast
qed

section \<open>Shutdown and the idle sweep\<close>

lemmas master_defs = record_events_def delete_bot_def Date_now_def set_lastActiveTime_def










lemma idle_entries_iff:
  "e \<in> set (idle_entries now T c es) \<longleftrightarrow>
     (\<exists>i<length es. es ! i = e \<and> now (c + i) - lastActiveTime (snd e) > T)"
proof (induction es arbitrary: c)
  case Nil
  then show ?case by simp
next
  case (Cons x es)
  have split: "(\<exists>i<length (x # es). (x # es) ! i = e \<and> now (c + i) - lastActiveTime (snd e) > T)
     \<longleftrightarrow> (x = e \<and> now c - lastActiveTime (snd e) > T) \<or>
         (\<exists>i<length es. es ! i = e \<and> now (Suc c + i) - lastActiveTime (snd e) > T)"
    (is "?L \<longleftrightarrow> ?A \<or> ?B")
  proof
    assume ?L
    then obtain i where i: "i < length (x # es)" "(x # es) ! i = e"
      "now (c + i) - lastActiveTime (snd e) > T" by blast
    show "?A \<or> ?B"
    proof (cases i)
      case 0
      with i show ?thesis by simp
    next
      case (Suc j)
      with i have "j < length es \<and> es ! j = e \<and> now (Suc c + j) - lastActiveTime (snd e) > T"
        by simp
      then show ?thesis by blast
    qed
  next
    assume "?A \<or> ?B"
    then show ?L
    proof
      assume ?A
      then have "0 < length (x # es) \<and> (x # es) ! 0 = e \<and> now (c + 0) - lastActiveTime (snd e) > T"
        by simp
      then show ?L by blast
    next
      assume ?B
      then obtain j where "j < length es" "es ! j = e" "now (Suc c + j) - lastActiveTime (snd e) > T"
        by blast
      then have "Suc j < length (x # es) \<and> (x # es) ! Suc j = e \<and>
                 now (c + Suc j) - lastActiveTime (snd e) > T" by simp
      then show ?L by blast
    qed
  qed
  show ?case unfolding split using Cons.IH[of "Suc c"] by auto
qed

lemma sweep_result:
  "\<forall>e\<in>set es. removable e \<Longrightarrow>
   snd (sweep now T es m) = Completes \<and>
   events (fst (sweep now T es m)) =
     events m @ concat (map eviction_events (idle_entries now T (clock_reads m) es)) \<and>
   bots (fst (sweep now T es m)) =
     filter (\<lambda>e. fst e \<notin> fst ` set (idle_entries now T (clock_reads m) es)) (bots m)"
proof (induction es arbitrary: m)
  case Nil
  then show ?case by simp
next
  case (Cons e es)
  obtain k b where e: "e = (k, b)" by (cases e)
  from Cons.prems have rest: "\<forall>e\<in>set es. removable e" by simp
  let ?m1 = "m\<lparr>clock_reads := Suc (clock_reads m)\<rparr>"
  show ?case
  proof (cases "now (clock_reads m) - lastActiveTime b > T")
    case False
    with e Cons.IH[OF rest, of ?m1] show ?thesis
      by (simp add: master_defs)
  next
    case True
    from Cons.prems e consider "onRemove (bot_instance b) = None"
      | "onRemove (bot_instance b) = Some Completes"
      by (auto simp: removable_def split: option.splits outcome.splits)
    then show ?thesis
    proof cases
      case 1
      with True e Cons.IH[OF rest, of "delete_bot k (record_events [Debug] ?m1)"]
      show ?thesis by (simp add: master_defs eviction_events_def)
    next
      case 2
      with True e
        Cons.IH[OF rest, of "delete_bot k (record_events [OnRemove k Completes, Debug] ?m1)"]
      show ?thesis by (simp add: master_defs eviction_events_def)
    qed
  qed
qed

lemma eviction_events_cases:
  "x \<in> set (eviction_events e) \<Longrightarrow>
   x = Debug \<or> x = Delete (fst e) \<or> x = OnRemove (fst e) Completes"
  by (auto simp: eviction_events_def split: option.splits outcome.splits)

lemma distinct_keys_index:
  assumes "distinct (map fst xs)" "i < length xs" "j < length xs" "fst (xs ! i) = fst (xs ! j)"
  shows "i = j"
proof -
  from assms have "map fst xs ! i = map fst xs ! j" by simp
  moreover from assms have "i < length (map fst xs)" "j < length (map fst xs)" by simp_all
  ultimately show ?thesis using assms(1) nth_eq_iff_index_eq by blast
qed

text \<open>
  C5, as amended. A sweep with threshold \<open>T\<close> in which no \<^verbatim>\<open>onRemove\<close> throws, and
  the session \<open>k\<close> with last-active time \<open>t\<close>, for which the sweep reads the time \<open>s\<close>
  from the clock: when \<open>s\<close> is later than \<open>t + T\<close> the session is evicted (its
  \<^verbatim>\<open>onRemove\<close> called if it is a function, then the entry deleted); when \<open>s\<close> is at or
  before \<open>t + T\<close> the session stays, with no \<^verbatim>\<open>onRemove\<close> call and no deletion for it.
\<close>

theorem idle_eviction_strict:
  "distinct (map fst (bots m)) \<and> i < length (bots m) \<and> bots m ! i = (k, b) \<and>
   (\<forall>e\<in>set (bots m). removable e) \<longrightarrow>
   (lastActiveTime b + T < now (clock_reads m + i) \<longrightarrow>
      k \<notin> fst ` set (bots (fst (sweep now T (bots m) m))) \<and>
      (\<exists>pre post. events (fst (sweep now T (bots m) m)) =
                    events m @ pre @ eviction_events (k, b) @ post)) \<and>
   (now (clock_reads m + i) \<le> lastActiveTime b + T \<longrightarrow>
      (k, b) \<in> set (bots (fst (sweep now T (bots m) m))) \<and>
      (\<exists>new. events (fst (sweep now T (bots m) m)) = events m @ new \<and>
             Delete k \<notin> set new \<and> (\<forall>oc. OnRemove k oc \<notin> set new)))"
proof (intro impI conjI)
  assume a: "distinct (map fst (bots m)) \<and> i < length (bots m) \<and> bots m ! i = (k, b) \<and>
             (\<forall>e\<in>set (bots m). removable e)"
  let ?idle = "idle_entries now T (clock_reads m) (bots m)"
  let ?m' = "fst (sweep now T (bots m) m)"
  from a have r: "\<forall>e\<in>set (bots m). removable e" by simp
  note S = sweep_result[OF r, of now T m]
  have mem: "(k, b) \<in> set (bots m)" using a by (metis nth_mem)
  {
    assume late: "lastActiveTime b + T < now (clock_reads m + i)"
    have idle: "(k, b) \<in> set ?idle"
      unfolding idle_entries_iff using a late by (intro exI[of _ i]) auto
    then show "k \<notin> fst ` set (bots ?m')" using S by force
    from idle obtain xs ys where "?idle = xs @ (k, b) # ys" by (auto dest: split_list)
    then have "events ?m' = events m @ concat (map eviction_events xs)
                 @ eviction_events (k, b) @ concat (map eviction_events ys)"
      using S by simp
    then show "\<exists>pre post. events ?m' = events m @ pre @ eviction_events (k, b) @ post"
      by blast
  }
  {
    assume early: "now (clock_reads m + i) \<le> lastActiveTime b + T"
    have nokey: "k \<notin> fst ` set ?idle"
    proof
      assume "k \<in> fst ` set ?idle"
      then obtain b' where "(k, b') \<in> set ?idle" by auto
      then obtain j where j: "j < length (bots m)" "bots m ! j = (k, b')"
         "now (clock_reads m + j) - lastActiveTime b' > T"
        unfolding idle_entries_iff by auto
      from j a have "fst (bots m ! j) = fst (bots m ! i)" by simp
      with a j have "j = i" by (intro distinct_keys_index) auto
      with j a early show False by simp
    qed
    then show "(k, b) \<in> set (bots ?m')" using S mem by simp
    let ?new = "concat (map eviction_events ?idle)"
    have "Delete k \<notin> set ?new \<and> (\<forall>oc. OnRemove k oc \<notin> set ?new)"
      using nokey by (auto dest!: eviction_events_cases)
    then show "\<exists>new. events ?m' = events m @ new \<and>
             Delete k \<notin> set new \<and> (\<forall>oc. OnRemove k oc \<notin> set new)"
      using S by blast
  }
qed

section \<open>The life of a session\<close>


lemma lifecycle_append:
  "lifecycle st h k ph (xs @ ys) =
     (case lifecycle st h k ph xs of None \<Rightarrow> None | Some ph' \<Rightarrow> lifecycle st h k ph' ys)"
  by (induction xs arbitrary: ph) (auto split: option.splits)

lemma tracked_step:
  assumes "tracked st h srv m" and "BotServant m' = BotServant m" and "events m' = events m @ E"
    and "distinct (map fst (bots m'))"
    and "\<And>k. lifecycle st h k (phase_of m k) E =
              Some (phase_of m' k)"
  shows "tracked st h srv m'"
  using assms unfolding tracked_def by (simp add: lifecycle_append)

lemma tracked_BotMaster:
  "st \<longrightarrow> (\<forall>k. live_phase (srv k) = Ready) \<Longrightarrow>
   tracked st (\<lambda>k. onCreate (srv k) \<noteq> None) srv (BotMaster idf srv opts)"
  by (simp add: tracked_def BotMaster_def phase_of_def)

lemma live_phase_cases: "live_phase inst = Ready \<or> live_phase inst = Failed"
  by (simp add: live_phase_def split: option.splits outcome.splits)

lemma tracked_live:
  assumes "tracked st h srv m"
  shows "live_phase (BotServant m k) = Ready \<or> (live_phase (BotServant m k) = Failed \<and> \<not> st)"
  using assms live_phase_cases[of "BotServant m k"] unfolding tracked_def by auto

lemma keys_set_lastActiveTime:
  "map fst (bots (set_lastActiveTime k t m)) = map fst (bots m)"
  by (simp add: set_lastActiveTime_def comp_def)

lemma tracked_deliver:
  assumes "tracked st h srv m" and "k \<in> fst ` set (bots m)"
  shows "tracked st h srv (fst (deliver now k inst u m))"
proof -
  let ?m' = "fst (deliver now k inst u m)"
  obtain oc where E: "events ?m' = events m @ [ProcessUpdate k u oc]"
    by (cases "processUpdate inst u") (simp_all add: deliver_def master_defs Let_def)
  have keys: "map fst (bots ?m') = map fst (bots m)"
    by (cases "processUpdate inst u")
       (simp_all add: deliver_def Date_now_def record_events_def Let_def keys_set_lastActiveTime)
  then have kset: "fst ` set (bots ?m') = fst ` set (bots m)"
    by (metis list.set_map)
  have srv: "BotServant ?m' = BotServant m"
    by (cases "processUpdate inst u") (simp_all add: deliver_def master_defs Let_def)
  show ?thesis
  proof (rule tracked_step[OF assms(1) srv E])
    show "distinct (map fst (bots ?m'))"
      using assms(1) keys by (simp add: tracked_def)
    show "lifecycle st h k' (phase_of m k') [ProcessUpdate k u oc] = Some (phase_of ?m' k')" for k'
      using assms(2) tracked_live[OF assms(1), of k] srv kset
      by (auto simp: phase_of_def)
  qed
qed


lemma map_of_None_keys: "map_of xs k = None \<longleftrightarrow> k \<notin> fst ` set xs"
  by (simp add: map_of_eq_None_iff)

lemma tracked_construct:
  assumes t: "tracked st h srv m" and absent: "k \<notin> fst ` set (bots m)"
    and E: "E = [Construct k, Debug] @
                (case onCreate (BotServant m k) of None \<Rightarrow> [] | Some oc \<Rightarrow> [OnCreate k oc])"
  shows "tracked st h srv (record_events E (m\<lparr>bots := bots m @ [(k, b)]\<rparr>))"
proof (rule tracked_step[OF t, where E = E])
  let ?m' = "record_events E (m\<lparr>bots := bots m @ [(k, b)]\<rparr>)"
  show "BotServant ?m' = BotServant m" by (simp add: record_events_def)
  show "events ?m' = events m @ E" by (simp add: record_events_def)
  show "distinct (map fst (bots ?m'))"
    using t absent by (simp add: tracked_def record_events_def)
  from t have hk: "h k = (onCreate (BotServant m k) \<noteq> None)" by (simp add: tracked_def)
  show "lifecycle st h k' (phase_of m k') E =
        Some (phase_of ?m' k')" for k'
    using absent hk unfolding E
    by (cases "onCreate (BotServant m k)")
       (auto simp: record_events_def phase_of_def live_phase_def split: outcome.splits)
qed

lemma tracked_handle_update:
  assumes t: "tracked st h srv m"
  shows "tracked st h srv (fst (handle_update now u m))"
proof -
  let ?k = "identify m u"
  show ?thesis
  proof (cases "map_of (bots m) ?k")
    case (Some b)
    then have "?k \<in> fst ` set (bots m)" by (metis map_of_None_keys option.distinct(1))
    with t Some show ?thesis by (simp add: handle_update_def Let_def tracked_deliver)
  next
    case None
    then have absent: "?k \<notin> fst ` set (bots m)" by (simp add: map_of_None_keys)
    let ?inst = "BotServant m ?k"
    let ?b = "\<lparr>lastActiveTime = 0, bot_instance = ?inst\<rparr>"
    let ?base = "m\<lparr>bots := bots m @ [(?k, ?b)]\<rparr>"
    let ?m1 = "record_events [Construct ?k, Debug] ?base"
    have present: "?k \<in> fst ` set (bots (record_events E ?base))" for E
      by (simp add: record_events_def)
    have rr: "record_events [OnCreate ?k oc] ?m1 = record_events [Construct ?k, Debug, OnCreate ?k oc] ?base" for oc
      by (simp add: record_events_def)
    show ?thesis
    proof (cases "onCreate ?inst")
      case N: None
      have "tracked st h srv ?m1"
        using tracked_construct[OF t absent, of "[Construct ?k, Debug]" ?b] N by simp
      then have "tracked st h srv (fst (deliver now ?k ?inst u ?m1))"
        using present by (intro tracked_deliver) auto
      with None N show ?thesis by (simp add: handle_update_def Let_def)
    next
      case S: (Some oc)
      have t1: "tracked st h srv (record_events [Construct ?k, Debug, OnCreate ?k oc] ?base)"
        using tracked_construct[OF t absent, of "[Construct ?k, Debug, OnCreate ?k oc]" ?b] S
        by simp
      show ?thesis
      proof (cases oc)
        case Completes
        have "tracked st h srv (fst (deliver now ?k ?inst u
                 (record_events [Construct ?k, Debug, OnCreate ?k oc] ?base)))"
          using t1 present by (intro tracked_deliver) auto
        with None S Completes show ?thesis by (simp add: handle_update_def Let_def rr)
      next
        case (Throws e)
        with None S t1 show ?thesis by (simp add: handle_update_def Let_def rr)
      qed
    qed
  qed
qed

lemma tracked_handle_updates:
  "tracked st h srv m \<Longrightarrow> tracked st h srv (fst (handle_updates now us m))"
proof (induction us arbitrary: m)
  case Nil
  then show ?case by simp
next
  case (Cons u us)
  obtain m1 oc where h: "handle_update now u m = (m1, oc)" by (cases "handle_update now u m")
  from Cons.prems have t1: "tracked st h srv m1"
    using tracked_handle_update[of st h srv m now u] h by simp
  show ?case
  proof (cases oc)
    case Completes
    with h Cons.IH[OF t1] show ?thesis by simp
  next
    case (Throws e)
    with h t1 show ?thesis by simp
  qed
qed

lemma tracked_clock: "tracked st h srv (m\<lparr>clock_reads := c\<rparr>) = tracked st h srv m"
  by (simp add: tracked_def phase_of_def)

lemma tracked_note:
  assumes "tracked st h srv m" and "\<And>k ph. lifecycle st h k ph E = Some ph"
  shows "tracked st h srv (record_events E m)"
  using assms
  by (intro tracked_step[OF assms(1), where E = E])
     (auto simp: record_events_def tracked_def phase_of_def)

lemma tracked_delete:
  assumes t: "tracked st h srv m" and pre: "\<And>k' ph. lifecycle st h k' ph E = Some ph"
  shows "tracked st h srv (delete_bot k (record_events E m))"
proof (rule tracked_step[OF t, where E = "E @ [Delete k]"])
  let ?m' = "delete_bot k (record_events E m)"
  show "BotServant ?m' = BotServant m" by (simp add: master_defs)
  show "events ?m' = events m @ E @ [Delete k]" by (simp add: master_defs)
  show "distinct (map fst (bots ?m'))"
    using t by (simp add: tracked_def master_defs distinct_map_filter)
  show "lifecycle st h k' (phase_of m k') (E @ [Delete k]) =
        Some (phase_of ?m' k')" for k'
    by (auto simp: lifecycle_append pre master_defs phase_of_def)
qed

lemma record_events_Nil: "record_events [] m = m"
  by (simp add: record_events_def)

lemma tracked_sweep:
  "tracked st h srv m \<Longrightarrow> tracked st h srv (fst (sweep now T es m))"
proof (induction es arbitrary: m)
  case Nil
  then show ?case by simp
next
  case (Cons e es)
  obtain k b where e: "e = (k, b)" by (cases e)
  let ?m1 = "m\<lparr>clock_reads := Suc (clock_reads m)\<rparr>"
  have t1: "tracked st h srv ?m1" using Cons.prems by (simp add: tracked_clock)
  show ?case
  proof (cases "now (clock_reads m) - lastActiveTime b > T")
    case False
    with e Cons.IH[OF t1] show ?thesis by (simp add: Date_now_def)
  next
    case True
    show ?thesis
    proof (cases "onRemove (bot_instance b)")
      case None
      have "tracked st h srv (delete_bot k (record_events [Debug] ?m1))"
        using t1 by (rule tracked_delete) simp
      from Cons.IH[OF this] None True e show ?thesis by (simp add: Date_now_def)
    next
      case (Some oc)
      show ?thesis
      proof (cases oc)
        case Completes
        have "tracked st h srv (delete_bot k (record_events [OnRemove k Completes, Debug] ?m1))"
          using t1 by (rule tracked_delete) simp
        from Cons.IH[OF this] Some Completes True e show ?thesis by (simp add: Date_now_def)
      next
        case (Throws err)
        have "tracked st h srv (record_events [OnRemove k (Throws err)] ?m1)"
          using t1 by (rule tracked_note) simp
        with Some Throws True e show ?thesis by (simp add: Date_now_def)
      qed
    qed
  qed
qed

lemma tracked_onUpdates:
  assumes "tracked st h srv m"
  shows "tracked st h srv (fst (onUpdates now us m))"
proof -
  obtain m1 oc where h: "handle_updates now us m = (m1, oc)" by (cases "handle_updates now us m")
  from assms have t1: "tracked st h srv m1"
    using tracked_handle_updates[of st h srv m now us] h by simp
  show ?thesis
    using h t1 tracked_sweep[OF t1]
    by (cases oc; cases "destroyTimeout m1") (simp_all add: onUpdates_def)
qed

lemma tracked_remove_all:
  "tracked st h srv m \<Longrightarrow> tracked st h srv (fst (remove_all es m))"
proof (induction es arbitrary: m)
  case Nil
  then show ?case by simp
next
  case (Cons e es)
  obtain k b where e: "e = (k, b)" by (cases e)
  show ?case
  proof (cases "onRemove (bot_instance b)")
    case None
    have "tracked st h srv (delete_bot k (record_events [] m))"
      using Cons.prems by (rule tracked_delete) simp
    from Cons.IH[OF this] None e show ?thesis by (simp add: record_events_Nil)
  next
    case (Some oc)
    show ?thesis
    proof (cases oc)
      case Completes
      have "tracked st h srv (delete_bot k (record_events [OnRemove k Completes] m))"
        using Cons.prems by (rule tracked_delete) simp
      from Cons.IH[OF this] Some Completes e show ?thesis by simp
    next
      case (Throws err)
      have "tracked st h srv (record_events [OnRemove k (Throws err)] m)"
        using Cons.prems by (rule tracked_note) simp
      with Some Throws e show ?thesis by simp
    qed
  qed
qed

lemma tracked_cleanup:
  assumes "tracked st h srv m"
  shows "tracked st h srv (fst (cleanup cb m))"
proof -
  let ?m0 = "m\<lparr>botPoller := stopPollUpdates (botPoller m)\<rparr>"
  let ?m1 = "record_events [StopPollUpdates] ?m0"
  have "tracked st h srv ?m0" using assms by (simp add: tracked_def phase_of_def)
  then have t1: "tracked st h srv ?m1" by (rule tracked_note) simp
  obtain m2 oc where r: "remove_all (bots ?m1) ?m1 = (m2, oc)"
    by (cases "remove_all (bots ?m1) ?m1")
  have t2: "tracked st h srv m2" using tracked_remove_all[OF t1, of "bots ?m1"] r by simp
  have t3: "tracked st h srv (record_events [Debug] m2)" using t2 by (rule tracked_note) simp
  have t4: "tracked st h srv (record_events [Debug, StopCallback c] m2)" for c
    using t2 by (rule tracked_note) simp
  show ?thesis
    using r t2 t3 t4 by (cases oc; cases cb) (simp_all add: cleanup_def Let_def)
qed

lemma tracked_master_run:
  "tracked st h srv m \<Longrightarrow> tracked st h srv (master_run now cb ss m)"
proof (induction ss arbitrary: m)
  case Nil
  then show ?case by simp
next
  case (Cons s ss)
  show ?case
  proof (cases s)
    case (Batch us)
    with Cons.IH[OF tracked_onUpdates[OF Cons.prems, of now us]] show ?thesis by simp
  next
    case (Signal sg)
    have "on_signal cb sg m = cleanup cb m" by (cases sg) (simp_all add: on_signal_def)
    with Signal Cons.IH[OF tracked_cleanup[OF Cons.prems, of cb]] show ?thesis by simp
  qed
qed

text \<open>
  C7, as amended. For every identifier and every sequence of batches and signals that
  reaches a new master, the events are accepted by \<open>lifecycle\<close> without \<open>strict\<close>: a
  servant is constructed for an identifier only when it has no entry (so at most once
  until its entry is deleted, and a later Update for it goes to the entry it has), and
  every \<^verbatim>\<open>processUpdate\<close> call for an identifier comes after the construction of its
  servant and, when the servant has an \<^verbatim>\<open>onCreate\<close> function, after the awaited
  \<^verbatim>\<open>onCreate\<close> call has settled. When no servant has an \<^verbatim>\<open>onCreate\<close> that throws, the
  events are accepted with \<open>strict\<close> too: \<^verbatim>\<open>onCreate\<close> has completed before the first
  \<^verbatim>\<open>processUpdate\<close> call for the identifier.
\<close>

theorem session_lifecycle:
  "lifecycle False (\<lambda>k. onCreate (srv k) \<noteq> None) k Absent
     (events (master_run now stopCallback ss (BotMaster idf srv opts))) =
   Some (if k \<in> fst ` set (bots (master_run now stopCallback ss (BotMaster idf srv opts)))
         then live_phase (srv k) else Absent) \<and>
   ((\<forall>k error. onCreate (srv k) \<noteq> Some (Throws error)) \<longrightarrow>
    lifecycle True (\<lambda>k. onCreate (srv k) \<noteq> None) k Absent
      (events (master_run now stopCallback ss (BotMaster idf srv opts))) =
    Some (if k \<in> fst ` set (bots (master_run now stopCallback ss (BotMaster idf srv opts)))
          then Ready else Absent))"
proof (intro conjI impI)
  let ?h = "\<lambda>k. onCreate (srv k) \<noteq> None"
  let ?R = "master_run now stopCallback ss (BotMaster idf srv opts)"
  have "tracked False ?h srv (BotMaster idf srv opts)" by (rule tracked_BotMaster) simp
  then have t: "tracked False ?h srv ?R" by (rule tracked_master_run)
  have srv: "BotServant ?R = srv" using t unfolding tracked_def by blast
  from t have "lifecycle False ?h k Absent (events ?R) = Some (phase_of ?R k)"
    unfolding tracked_def by blast
  then show "lifecycle False ?h k Absent (events ?R) =
      Some (if k \<in> fst ` set (bots ?R) then live_phase (srv k) else Absent)"
    by (simp add: phase_of_def srv)
  assume nothrow: "\<forall>k error. onCreate (srv k) \<noteq> Some (Throws error)"
  then have ready: "\<forall>k. live_phase (srv k) = Ready"
    by (auto simp: live_phase_def split: option.splits outcome.splits)
  then have "tracked True ?h srv (BotMaster idf srv opts)" by (intro tracked_BotMaster) simp
  then have t': "tracked True ?h srv ?R" by (rule tracked_master_run)
  then have "lifecycle True ?h k Absent (events ?R) = Some (phase_of ?R k)"
    unfolding tracked_def by blast
  then show "lifecycle True ?h k Absent (events ?R) =
      Some (if k \<in> fst ` set (bots ?R) then Ready else Absent)"
    using ready by (simp add: phase_of_def srv)
qed

section \<open>The earlier copies and the cursor\<close>

lemma greatest_update_id_fold:
  "greatest_update_id a us = fold max (map update_id us) a"
  by (induction us arbitrary: a) (auto simp: max_def)

lemma greatest_update_id_Max:
  "greatest_update_id a us = Max (insert a (update_id ` set us))"
  using Max.set_eq_fold[of a "map update_id us"]
  by (simp add: greatest_update_id_fold)

text \<open>
  The second earlier copy moves the cursor to the greatest \<^verbatim>\<open>update_id\<close> plus one
  whatever the order of the batch, when the \<^verbatim>\<open>update_id\<close>s are positive.
\<close>

lemma legacy_cursor_after_cycle:
  assumes "updates \<noteq> []" and "\<forall>u\<in>set updates. 0 < update_id u"
  shows "offset (legacy_pollUpdates_resume (Inr updates) Completes p) =
           Max (update_id ` set updates) + 1"
    and "offset (legacy_pollUpdates_resume (Inr []) d p) = offset p"
    and "offset (legacy_pollUpdates_resume (Inl error) d p) = offset p"
proof -
  let ?S = "update_id ` set updates"
  have fin: "finite ?S" and ne: "?S \<noteq> {}" using assms(1) by auto
  from assms(1) obtain u where "u \<in> set updates" by (cases updates) auto
  with assms(2) have "\<exists>x\<in>?S. 0 < x" by auto
  then have pos: "0 < Max ?S" using fin ne by (simp add: Max_gr_iff)
  have "Max (insert 0 ?S) = max 0 (Max ?S)" using fin ne by (rule Max_insert)
  with pos have g: "greatest_update_id 0 updates = Max ?S"
    by (simp add: greatest_update_id_Max)
  with pos show "offset (legacy_pollUpdates_resume (Inr updates) Completes p) = Max ?S + 1"
    by (simp add: legacy_pollUpdates_resume_def legacy_getUpdates_def Let_def)
  show "offset (legacy_pollUpdates_resume (Inr []) d p) = offset p"
    by (cases d) (simp_all add: legacy_pollUpdates_resume_def legacy_getUpdates_def)
  show "offset (legacy_pollUpdates_resume (Inl error) d p) = offset p"
    by (cases d) (simp_all add: legacy_pollUpdates_resume_def legacy_getUpdates_def)
qed

text \<open>
  The first earlier copy writes the cursor as soon as the \<^verbatim>\<open>onUpdates\<close> call has
  returned.
\<close>

lemma legacy_cursor_not_awaited:
  "updates \<noteq> [] \<Longrightarrow>
   effects (fst (legacy_try_block (Inr updates) Completes p)) =
     effects p @ [OnUpdates updates Completes, SetOffset (update_id (last updates) + 1)]"
  by (simp add: legacy_try_block_def emit_def set_offset_def)


section \<open>The timeout option\<close>

text \<open>
  The guard of the sweep: with \<^verbatim>\<open>destroyTimeout\<close> null, \<^verbatim>\<open>onUpdates\<close> is its first loop
  alone. The constructor never leaves the field null.
\<close>

lemma destroyTimeout_handle_updates:
  "destroyTimeout (fst (handle_updates now us m)) = destroyTimeout m"
proof (induction us arbitrary: m)
  case Nil
  then show ?case by simp
next
  case (Cons u us)
  have one: "destroyTimeout (fst (handle_update now u m)) = destroyTimeout m"
    by (auto simp: handle_update_def deliver_def master_defs Let_def
             split: option.splits outcome.splits)
  obtain m1 oc where h: "handle_update now u m = (m1, oc)" by (cases "handle_update now u m")
  with one have "destroyTimeout m1 = destroyTimeout m" by simp
  with h Cons.IH[of m1] show ?case by (cases oc) simp_all
qed

lemma no_sweep_without_timeout:
  "destroyTimeout m = None \<Longrightarrow> onUpdates now us m = handle_updates now us m"
proof -
  assume n: "destroyTimeout m = None"
  obtain m1 oc where h: "handle_updates now us m = (m1, oc)" by (cases "handle_updates now us m")
  with destroyTimeout_handle_updates[of now us m] n have "destroyTimeout m1 = None" by simp
  with h show ?thesis by (cases oc) (simp_all add: onUpdates_def)
qed

lemma constructor_sets_timeout: "destroyTimeout (BotMaster idf srv opts) \<noteq> None"
  by (simp add: BotMaster_def split: option.splits)


section \<open>Examples\<close>

lemmas eval_defs = master_defs BotMaster_def BotPoller_def onUpdates_def handle_update_def
  deliver_def cleanup_def on_signal_def stopPollUpdates_def clearTimeout_def emit_def
  base_servant_def opts_with_def removable_def removal_events_def eviction_events_def
  stop_events_def Let_def



text \<open>
  C5, as stated, fails: with a timeout of 1000, session \<open>a\<close> is last active at 5000
  and the sweep after the next batch reads 6000 for it, which is \<open>t + T\<close>; the session
  is still there after the sweep.
\<close>

theorem boundary_sweep_counterexample:
  "destroyTimeout (BotMaster body (\<lambda>k. base_servant) (opts_with (Some 1000))) = Some 1000 \<and>
   bots (fst (onUpdates (\<lambda>n. if n < 2 then 5000 else 6000) [\<lparr>update_id = 2, body = ''b''\<rparr>]
     (fst (onUpdates (\<lambda>n. if n < 2 then 5000 else 6000) [\<lparr>update_id = 1, body = ''a''\<rparr>]
        (BotMaster body (\<lambda>k. base_servant) (opts_with (Some 1000))))))) =
   [(''a'', \<lparr>lastActiveTime = 5000, bot_instance = base_servant\<rparr>),
    (''b'', \<lparr>lastActiveTime = 6000, bot_instance = base_servant\<rparr>)]"
  by (simp add: eval_defs)

theorem idle_eviction_strict_witness:
  "distinct (map fst [(''a'', \<lparr>lastActiveTime = 5000, bot_instance = base_servant\<rparr>)]) \<and>
   removable (''a'', \<lparr>lastActiveTime = 5000, bot_instance = base_servant\<rparr>) \<and>
   5000 + 1000 < (6001::int) \<and>
   bots (fst (sweep (\<lambda>n. 6001) 1000
          [(''a'', \<lparr>lastActiveTime = 5000, bot_instance = base_servant\<rparr>)]
          ((BotMaster body (\<lambda>k. base_servant) (opts_with (Some 1000)))
             \<lparr>bots := [(''a'', \<lparr>lastActiveTime = 5000, bot_instance = base_servant\<rparr>)]\<rparr>))) = [] \<and>
   bots (fst (sweep (\<lambda>n. 6000) 1000
          [(''a'', \<lparr>lastActiveTime = 5000, bot_instance = base_servant\<rparr>)]
          ((BotMaster body (\<lambda>k. base_servant) (opts_with (Some 1000)))
             \<lparr>bots := [(''a'', \<lparr>lastActiveTime = 5000, bot_instance = base_servant\<rparr>)]\<rparr>))) =
     [(''a'', \<lparr>lastActiveTime = 5000, bot_instance = base_servant\<rparr>)]"
  using idle_eviction_strict
    [of "(BotMaster body (\<lambda>k. base_servant) (opts_with (Some 1000)))
             \<lparr>bots := [(''a'', \<lparr>lastActiveTime = 5000, bot_instance = base_servant\<rparr>)]\<rparr>"
        0 "''a''" "\<lparr>lastActiveTime = 5000, bot_instance = base_servant\<rparr>" 1000 "\<lambda>n. 6001"]
    idle_eviction_strict
    [of "(BotMaster body (\<lambda>k. base_servant) (opts_with (Some 1000)))
             \<lparr>bots := [(''a'', \<lparr>lastActiveTime = 5000, bot_instance = base_servant\<rparr>)]\<rparr>"
        0 "''a''" "\<lparr>lastActiveTime = 5000, bot_instance = base_servant\<rparr>" 1000 "\<lambda>n. 6000"]
  by (simp add: eval_defs)

text \<open>
  C6, on the code: a master constructed with the \<^verbatim>\<open>destroyTimeout\<close> option null has
  the timeout 300000, and the sweep after a batch at time 300001 evicts session \<open>a\<close>,
  last active at 0.
\<close>

theorem null_timeout_still_evicts:
  "destroyTimeout (BotMaster body (\<lambda>k. base_servant) (opts_with None)) = Some 300000 \<and>
   bots (fst (onUpdates (\<lambda>n. if n < 2 then 0 else 300001) [\<lparr>update_id = 2, body = ''b''\<rparr>]
     (fst (onUpdates (\<lambda>n. if n < 2 then 0 else 300001) [\<lparr>update_id = 1, body = ''a''\<rparr>]
        (BotMaster body (\<lambda>k. base_servant) (opts_with None)))))) =
   [(''b'', \<lparr>lastActiveTime = 300001, bot_instance = base_servant\<rparr>)]"
  by (simp add: eval_defs)

text \<open>What \<open>lifecycle\<close> refuses.\<close>

lemma lifecycle_refuses:
  "lifecycle st h k Absent [ProcessUpdate k u oc] = None"
  "lifecycle st h k Absent [Construct k, Construct k] = None"
  "h k \<Longrightarrow> lifecycle st h k Absent [Construct k, ProcessUpdate k u oc] = None"
  "h k \<Longrightarrow> lifecycle True h k Absent
           [Construct k, OnCreate k (Throws error), ProcessUpdate k u oc] = None"
  by simp_all

text \<open>
  C7, as stated, fails: the \<^verbatim>\<open>onCreate\<close> of the servant for \<open>a\<close> throws, which ends
  \<^verbatim>\<open>onUpdates\<close> with the entry already in the dictionary; the poller hands the batch
  over again, and \<^verbatim>\<open>processUpdate\<close> is called for \<open>a\<close> although its \<^verbatim>\<open>onCreate\<close> never
  completed.
\<close>

theorem failed_onCreate_counterexample:
  "events (master_run (\<lambda>n. 0) None
      [Batch [\<lparr>update_id = 1, body = ''a''\<rparr>], Batch [\<lparr>update_id = 1, body = ''a''\<rparr>]]
      (BotMaster body (\<lambda>k. failing_servant) (opts_with None))) =
   [Construct ''a'', Debug, OnCreate ''a'' (Throws (JsError ''no database'')),
    ProcessUpdate ''a'' \<lparr>update_id = 1, body = ''a''\<rparr> Completes] \<and>
   lifecycle True (\<lambda>k. onCreate failing_servant \<noteq> None) ''a'' Absent
     (events (master_run (\<lambda>n. 0) None
        [Batch [\<lparr>update_id = 1, body = ''a''\<rparr>], Batch [\<lparr>update_id = 1, body = ''a''\<rparr>]]
        (BotMaster body (\<lambda>k. failing_servant) (opts_with None)))) = None"
  by (simp add: eval_defs failing_servant_def)

theorem session_lifecycle_witness:
  "(\<forall>error. onCreate base_servant \<noteq> Some (Throws error)) \<and>
   events (master_run (\<lambda>n. 0) None
      [Batch [\<lparr>update_id = 1, body = ''a''\<rparr>, \<lparr>update_id = 2, body = ''a''\<rparr>]]
      (BotMaster body (\<lambda>k. base_servant) (opts_with None))) =
   [Construct ''a'', Debug, OnCreate ''a'' Completes,
    ProcessUpdate ''a'' \<lparr>update_id = 1, body = ''a''\<rparr> Completes,
    ProcessUpdate ''a'' \<lparr>update_id = 2, body = ''a''\<rparr> Completes] \<and>
   lifecycle True (\<lambda>k. onCreate base_servant \<noteq> None) ''a'' Absent
     (events (master_run (\<lambda>n. 0) None
        [Batch [\<lparr>update_id = 1, body = ''a''\<rparr>, \<lparr>update_id = 2, body = ''a''\<rparr>]]
        (BotMaster body (\<lambda>k. base_servant) (opts_with None)))) = Some Ready"
  using session_lifecycle
    [of "\<lambda>k. base_servant" "''a''" "\<lambda>n. 0" None
        "[Batch [\<lparr>update_id = 1, body = ''a''\<rparr>, \<lparr>update_id = 2, body = ''a''\<rparr>]]"
        body "opts_with None"]
  by (simp add: eval_defs)

end
